theory Spec2Isabelle
  imports Main
begin

section \<open>Text, code units and the cursor state\<close>

text \<open>
  A JavaScript string is a sequence of UTF-16 code units. The classifiers of the parser
  work on the numbers \<open>text.charCodeAt(i)\<close> returns, so a string is modelled as the list
  of its code units, each a natural number. \<open>js\<close> turns an ASCII literal into such a list.
\<close>

type_synonym jstring = "nat list"

definition js :: "string \<Rightarrow> jstring" where
  "js s = map of_char s"

text \<open>
  \<open>text.charCodeAt(i)\<close> is \<open>NaN\<close> outside the string, \<open>text[i]\<close> is \<open>undefined\<close> and
  \<open>text.charAt(i)\<close> is the empty string there: all three are \<open>None\<close> here. A classifier
  applied to any of them is false, a comparison with a character code fails.
\<close>

definition charCodeAt :: "jstring \<Rightarrow> nat \<Rightarrow> nat option" where
  "charCodeAt text i = (if i < length text then Some (text ! i) else None)"

definition atIndex :: "(nat \<Rightarrow> bool) \<Rightarrow> jstring \<Rightarrow> nat \<Rightarrow> bool" where
  "atIndex p text i = (case charCodeAt text i of None \<Rightarrow> False | Some c \<Rightarrow> p c)"

definition slice :: "jstring \<Rightarrow> nat \<Rightarrow> nat \<Rightarrow> jstring" where
  "slice text a b = take (b - a) (drop a text)"

text \<open>The two variables every nested function of \<open>jsonrepair\<close> closes over:
  \<open>cursor\<close> is the source's \<open>i\<close>, the current index in the text, and \<open>out\<close> is
  the source's \<open>output\<close>, the generated output.\<close>

record pstate =
  cursor :: nat
  out :: jstring

text \<open>A \<open>JSONRepairError\<close>: the kind of its message and its position.\<close>

datatype error =
    UnexpectedEnd nat
  | UnexpectedCharacter nat
  | ObjectKeyExpected nat
  | ColonExpected nat
  | InvalidCharacter nat
  | InvalidUnicodeCharacter nat

text \<open>
  The recursive recognizers are defined with fuel: one unit per nested call or loop
  iteration. \<open>OutOfFuel\<close> is not a result of the program; \<open>Throw\<close> is a raised
  \<open>JSONRepairError\<close> and \<open>Ok\<close> a normal return.
\<close>

datatype 'a result = OutOfFuel | Throw error | Ok 'a

section \<open>Character codes and classifiers\<close>

text \<open>The character codes that \<open>jsonrepair.ts\<close> imports by name.\<close>

abbreviation codeBackslash :: nat where "codeBackslash \<equiv> 0x5c"
abbreviation codeSlash :: nat where "codeSlash \<equiv> 0x2f"
abbreviation codeAsterisk :: nat where "codeAsterisk \<equiv> 0x2a"
abbreviation codeOpeningBrace :: nat where "codeOpeningBrace \<equiv> 0x7b"
abbreviation codeClosingBrace :: nat where "codeClosingBrace \<equiv> 0x7d"
abbreviation codeOpeningBracket :: nat where "codeOpeningBracket \<equiv> 0x5b"
abbreviation codeClosingBracket :: nat where "codeClosingBracket \<equiv> 0x5d"
abbreviation codeOpenParenthesis :: nat where "codeOpenParenthesis \<equiv> 0x28"
abbreviation codeCloseParenthesis :: nat where "codeCloseParenthesis \<equiv> 0x29"
abbreviation codeSpace :: nat where "codeSpace \<equiv> 0x20"
abbreviation codeNewline :: nat where "codeNewline \<equiv> 0xa"
abbreviation codeTab :: nat where "codeTab \<equiv> 0x9"
abbreviation codeReturn :: nat where "codeReturn \<equiv> 0xd"
abbreviation codeBackspace :: nat where "codeBackspace \<equiv> 0x8"
abbreviation codeFormFeed :: nat where "codeFormFeed \<equiv> 0xc"
abbreviation codeDoubleQuote :: nat where "codeDoubleQuote \<equiv> 0x22"
abbreviation codePlus :: nat where "codePlus \<equiv> 0x2b"
abbreviation codeMinus :: nat where "codeMinus \<equiv> 0x2d"
abbreviation codeQuote :: nat where "codeQuote \<equiv> 0x27"
abbreviation codeZero :: nat where "codeZero \<equiv> 0x30"
abbreviation codeNine :: nat where "codeNine \<equiv> 0x39"
abbreviation codeComma :: nat where "codeComma \<equiv> 0x2c"
abbreviation codeDot :: nat where "codeDot \<equiv> 0x2e"
abbreviation codeColon :: nat where "codeColon \<equiv> 0x3a"
abbreviation codeSemicolon :: nat where "codeSemicolon \<equiv> 0x3b"
abbreviation codeUppercaseE :: nat where "codeUppercaseE \<equiv> 0x45"
abbreviation codeLowercaseE :: nat where "codeLowercaseE \<equiv> 0x65"

text \<open>Modelled from the spec: the classifiers of \<open>utils/stringUtils\<close>, which is not among
  the sources. Section 3 of the spec lists them: whitespace is space, tab, CR, LF.\<close>

definition isWhitespace :: "nat \<Rightarrow> bool" where
  "isWhitespace c = (c = codeSpace \<or> c = codeNewline \<or> c = codeTab \<or> c = codeReturn)"

text \<open>Modelled from the spec: special whitespace is NBSP (U+00A0), the en/em spaces
  U+2000 to U+200A, the line and paragraph separators U+2028 and U+2029, the narrow
  no-break space U+202F, the medium mathematical space U+205F, the ideographic space
  U+3000.\<close>

definition isSpecialWhitespace :: "nat \<Rightarrow> bool" where
  "isSpecialWhitespace c =
     (c = 0xa0 \<or> (0x2000 \<le> c \<and> c \<le> 0x200a) \<or> c = 0x2028 \<or> c = 0x2029 \<or>
      c = 0x202f \<or> c = 0x205f \<or> c = 0x3000)"

text \<open>Modelled from the spec: double-quote-like is U+0022, U+201C, U+201D, U+201F,
  U+2033, U+2036; single-quote-like is U+0027, U+2018, U+2019, U+201B, U+2032, U+2035,
  the backtick U+0060 and the acute accent U+00B4. \<open>isDoubleQuote\<close> and \<open>isSingleQuote\<close>
  are the two ASCII quotes; a quote is either kind of quote-like.\<close>

definition isDoubleQuoteLike :: "nat \<Rightarrow> bool" where
  "isDoubleQuoteLike c =
     (c = codeDoubleQuote \<or> c = 0x201c \<or> c = 0x201d \<or> c = 0x201f \<or> c = 0x2033 \<or> c = 0x2036)"

definition isSingleQuoteLike :: "nat \<Rightarrow> bool" where
  "isSingleQuoteLike c =
     (c = codeQuote \<or> c = 0x2018 \<or> c = 0x2019 \<or> c = 0x201b \<or> c = 0x2032 \<or> c = 0x2035 \<or>
      c = 0x60 \<or> c = 0xb4)"

definition isDoubleQuote :: "nat \<Rightarrow> bool" where
  "isDoubleQuote c = (c = codeDoubleQuote)"

definition isSingleQuote :: "nat \<Rightarrow> bool" where
  "isSingleQuote c = (c = codeQuote)"

definition isQuote :: "nat \<Rightarrow> bool" where
  "isQuote c = (isDoubleQuoteLike c \<or> isSingleQuoteLike c)"

text \<open>Modelled from the spec: a delimiter is any of \<open>, : [ ] { } ( ) \n +\<close> plus the
  quote-likes. The delimiter-except-slash variant, used by unquoted strings, leaves the
  slash out of the delimiters.\<close>

definition isDelimiter :: "nat \<Rightarrow> bool" where
  "isDelimiter c =
     (c = codeComma \<or> c = codeColon \<or> c = codeOpeningBracket \<or> c = codeClosingBracket \<or>
      c = codeOpeningBrace \<or> c = codeClosingBrace \<or> c = codeOpenParenthesis \<or>
      c = codeCloseParenthesis \<or> c = codeNewline \<or> c = codePlus \<or> isQuote c)"

definition isDelimiterExceptSlash :: "nat \<Rightarrow> bool" where
  "isDelimiterExceptSlash c = (isDelimiter c \<and> c \<noteq> codeSlash)"

text \<open>Modelled from the spec: a digit is \<open>0-9\<close>, a hex digit is \<open>0-9A-Fa-f\<close>.\<close>

definition isDigit :: "nat \<Rightarrow> bool" where
  "isDigit c = (codeZero \<le> c \<and> c \<le> codeNine)"

definition isHex :: "nat \<Rightarrow> bool" where
  "isHex c = ((codeZero \<le> c \<and> c \<le> codeNine) \<or> (0x41 \<le> c \<and> c \<le> 0x46) \<or> (0x61 \<le> c \<and> c \<le> 0x66))"

text \<open>Modelled from the spec: the control characters the string recognizer escapes. The
  spec lets an implementation restrict them to the named set \<open>\b \f \n \r \t\<close>, which are
  the keys of the table \<open>controlCharacters\<close> of the source; any other character below
  U+0020 is not a valid string character.\<close>

definition isControlCharacter :: "nat \<Rightarrow> bool" where
  "isControlCharacter c =
     (c = codeNewline \<or> c = codeReturn \<or> c = codeTab \<or> c = codeBackspace \<or> c = codeFormFeed)"

definition isValidStringCharacter :: "nat \<Rightarrow> bool" where
  "isValidStringCharacter c = (0x20 \<le> c)"

text \<open>A word character, \<open>\w\<close> of a JavaScript regular expression: \<open>A-Z a-z 0-9 _\<close>.\<close>

definition isWordCharacter :: "nat \<Rightarrow> bool" where
  "isWordCharacter c =
     ((0x41 \<le> c \<and> c \<le> 0x5a) \<or> (0x61 \<le> c \<and> c \<le> 0x7a) \<or> (codeZero \<le> c \<and> c \<le> codeNine) \<or> c = 0x5f)"

text \<open>Modelled from the spec: a value-start character. The spec names it without a
  list; it is taken as the characters that open a value of section 4.2: \<open>[\<close>, \<open>{\<close>, a
  word character, \<open>-\<close> or a quote.\<close>

definition isStartOfValue :: "nat \<Rightarrow> bool" where
  "isStartOfValue c =
     (c = codeOpeningBracket \<or> c = codeOpeningBrace \<or> isWordCharacter c \<or> c = codeMinus \<or> isQuote c)"

text \<open>Modelled from the spec: a function name is a MongoDB type name or any identifier
  that can be a JSONP callback; the source treats both uniformly by one predicate, a
  non-empty run of word characters.\<close>

definition isFunctionName :: "jstring \<Rightarrow> bool" where
  "isFunctionName name = (name \<noteq> [] \<and> list_all isWordCharacter name)"

section \<open>Back-patching the output\<close>

text \<open>Modelled from the spec: \<open>insertBeforeLastWhitespace\<close> of \<open>utils/stringUtils\<close> splices
  a text in before the trailing whitespace of the output.\<close>

definition insertBeforeLastWhitespace :: "jstring \<Rightarrow> jstring \<Rightarrow> jstring" where
  "insertBeforeLastWhitespace text textToInsert =
     (let trailing = takeWhile isWhitespace (rev text)
      in take (length text - length trailing) text @ textToInsert @ rev trailing)"

text \<open>The index of the last occurrence of a character, \<open>text.lastIndexOf(c)\<close>.\<close>

fun lastIndexOf :: "jstring \<Rightarrow> nat \<Rightarrow> nat option" where
  "lastIndexOf [] c = None"
| "lastIndexOf (x # xs) c =
     (case lastIndexOf xs c of
        Some k \<Rightarrow> Some (Suc k)
      | None \<Rightarrow> if x = c then Some 0 else None)"

text \<open>Modelled from the spec: \<open>stripLastOccurrence\<close> of \<open>utils/stringUtils\<close> strips the last
  occurrence of a character. With the flag set, the occurrence is the close of the left
  string of a concatenation, the last character of the output that is not whitespace,
  and the whitespace after it goes with it (scenario 7 of the spec: the output for
  \<open>"a" + "b"\<close> is \<open>"ab"\<close>).\<close>

definition stripLastOccurrence :: "jstring \<Rightarrow> nat \<Rightarrow> bool \<Rightarrow> jstring" where
  "stripLastOccurrence text textToStrip stripRemainingText =
     (case lastIndexOf text textToStrip of
        None \<Rightarrow> text
      | Some index \<Rightarrow>
          take index text @ (if stripRemainingText then [] else drop (index + 1) text))"

text \<open>Modelled from the spec: \<open>removeAtIndex\<close> of \<open>utils/stringUtils\<close> removes \<open>count\<close>
  characters at an offset of the output.\<close>

definition removeAtIndex :: "jstring \<Rightarrow> nat \<Rightarrow> nat \<Rightarrow> jstring" where
  "removeAtIndex text start count = take start text @ drop (start + count) text"

text \<open>Modelled from the spec: \<open>endsWithCommaOrNewline\<close> of \<open>utils/stringUtils\<close>: the output
  ends, ignoring trailing whitespace, with a comma or a newline. The whitespace ignored is
  space, tab and CR: a newline is the end looked for.\<close>

definition endsWithCommaOrNewline :: "jstring \<Rightarrow> bool" where
  "endsWithCommaOrNewline text =
     (case dropWhile (\<lambda>c. c = codeSpace \<or> c = codeTab \<or> c = codeReturn) (rev text) of
        [] \<Rightarrow> False
      | c # _ \<Rightarrow> c = codeComma \<or> c = codeNewline)"

section \<open>The tables of the source and the built-ins it calls\<close>

text \<open>\<open>controlCharacters[char]\<close>: the escape of a control character.\<close>

definition controlCharacters :: "nat \<Rightarrow> jstring option" where
  "controlCharacters c =
     (if c = codeBackspace then Some [codeBackslash, 0x62]
      else if c = codeFormFeed then Some [codeBackslash, 0x66]
      else if c = codeNewline then Some [codeBackslash, 0x6e]
      else if c = codeReturn then Some [codeBackslash, 0x72]
      else if c = codeTab then Some [codeBackslash, 0x74]
      else None)"

text \<open>\<open>escapeCharacters[char] !== undefined\<close>: the characters \<open>" \ / b f n r t\<close>.\<close>

definition escapeCharacters :: "nat \<Rightarrow> bool" where
  "escapeCharacters c =
     (c = codeDoubleQuote \<or> c = codeBackslash \<or> c = codeSlash \<or> c = 0x62 \<or> c = 0x66 \<or>
      c = 0x6e \<or> c = 0x72 \<or> c = 0x74)"

text \<open>A lowercase hexadecimal digit, and \<open>JSON.stringify\<close> of a string: the text in
  double quotes, with \<open>"\<close> and \<open>\\<close> escaped, the control characters below U+0020 written
  as \<open>\b \t \n \f \r\<close> or \<open>\u00XX\<close>, and a lone surrogate written as \<open>\uXXXX\<close>.\<close>

definition hexDigit :: "nat \<Rightarrow> nat" where
  "hexDigit d = (if d < 10 then codeZero + d else 0x61 + (d - 10))"

definition unicodeEscape :: "nat \<Rightarrow> jstring" where
  "unicodeEscape c =
     [codeBackslash, 0x75, hexDigit (c div 4096 mod 16), hexDigit (c div 256 mod 16),
      hexDigit (c div 16 mod 16), hexDigit (c mod 16)]"

fun quoteJSONString :: "jstring \<Rightarrow> jstring" where
  "quoteJSONString [] = []"
| "quoteJSONString (c # cs) =
     (if c = codeDoubleQuote then [codeBackslash, codeDoubleQuote] @ quoteJSONString cs
      else if c = codeBackslash then [codeBackslash, codeBackslash] @ quoteJSONString cs
      else if c = codeBackspace then [codeBackslash, 0x62] @ quoteJSONString cs
      else if c = codeTab then [codeBackslash, 0x74] @ quoteJSONString cs
      else if c = codeNewline then [codeBackslash, 0x6e] @ quoteJSONString cs
      else if c = codeFormFeed then [codeBackslash, 0x66] @ quoteJSONString cs
      else if c = codeReturn then [codeBackslash, 0x72] @ quoteJSONString cs
      else if c < 0x20 then unicodeEscape c @ quoteJSONString cs
      else if 0xd800 \<le> c \<and> c \<le> 0xdbff then
        (case cs of
           d # ds \<Rightarrow>
             if 0xdc00 \<le> d \<and> d \<le> 0xdfff then c # d # quoteJSONString ds
             else unicodeEscape c @ quoteJSONString cs
         | [] \<Rightarrow> unicodeEscape c)
      else if 0xdc00 \<le> c \<and> c \<le> 0xdfff then unicodeEscape c @ quoteJSONString cs
      else c # quoteJSONString cs)"

definition JSON_stringify :: "jstring \<Rightarrow> jstring" where
  "JSON_stringify s = [codeDoubleQuote] @ quoteJSONString s @ [codeDoubleQuote]"

text \<open>\<open>String.prototype.trim\<close>: white space and line terminators go from both ends.\<close>

definition isTrimmed :: "nat \<Rightarrow> bool" where
  "isTrimmed c =
     ((0x9 \<le> c \<and> c \<le> 0xd) \<or> c = 0x20 \<or> c = 0xa0 \<or> c = 0x1680 \<or> (0x2000 \<le> c \<and> c \<le> 0x200a) \<or>
      c = 0x2028 \<or> c = 0x2029 \<or> c = 0x202f \<or> c = 0x205f \<or> c = 0x3000 \<or> c = 0xfeff)"

definition trim :: "jstring \<Rightarrow> jstring" where
  "trim s = rev (dropWhile isTrimmed (rev (dropWhile isTrimmed s)))"

section \<open>Whitespace, comments and single characters\<close>

text \<open>The loop of \<open>parseWhitespace\<close>: normal whitespace is kept, special whitespace
  becomes a space.\<close>

function parseWhitespace_loop :: "jstring \<Rightarrow> nat \<Rightarrow> jstring \<Rightarrow> nat \<times> jstring" where
  "parseWhitespace_loop text i whitespace =
     (if atIndex isWhitespace text i then
        parseWhitespace_loop text (i + 1) (whitespace @ [text ! i])
      else if atIndex isSpecialWhitespace text i then
        parseWhitespace_loop text (i + 1) (whitespace @ [codeSpace])
      else (i, whitespace))"
  by pat_completeness auto
termination
  by (relation "measure (\<lambda>(text, i, whitespace). length text - i)")
     (auto simp: atIndex_def charCodeAt_def split: if_splits)

declare parseWhitespace_loop.simps [simp del]

definition parseWhitespace :: "jstring \<Rightarrow> pstate \<Rightarrow> bool \<times> pstate" where
  "parseWhitespace text s =
     (case parseWhitespace_loop text (cursor s) [] of
        (i', whitespace) \<Rightarrow>
          if length whitespace > 0 then (True, s\<lparr>cursor := i', out := out s @ whitespace\<rparr>)
          else (False, s\<lparr>cursor := i'\<rparr>))"

text \<open>In the source the loop over \<open>parseComment\<close> is commented out: only whitespace is
  parsed, and the result says whether the cursor moved.\<close>

definition parseWhitespaceAndSkipComments :: "jstring \<Rightarrow> pstate \<Rightarrow> bool \<times> pstate" where
  "parseWhitespaceAndSkipComments text s =
     (let start = cursor s in
      case parseWhitespace text s of (changed, s') \<Rightarrow> (cursor s' > start, s'))"

definition atEndOfBlockComment :: "jstring \<Rightarrow> nat \<Rightarrow> bool" where
  "atEndOfBlockComment text i =
     (charCodeAt text i = Some codeAsterisk \<and> charCodeAt text (i + 1) = Some codeSlash)"

function parseComment_block :: "jstring \<Rightarrow> nat \<Rightarrow> nat" where
  "parseComment_block text i =
     (if i < length text \<and> \<not> atEndOfBlockComment text i then parseComment_block text (i + 1)
      else i)"
  by pat_completeness auto
termination
  by (relation "measure (\<lambda>(text, i). length text - i)") auto

declare parseComment_block.simps [simp del]

function parseComment_line :: "jstring \<Rightarrow> nat \<Rightarrow> nat" where
  "parseComment_line text i =
     (if i < length text \<and> charCodeAt text i \<noteq> Some codeNewline then parseComment_line text (i + 1)
      else i)"
  by pat_completeness auto
termination
  by (relation "measure (\<lambda>(text, i). length text - i)") auto

declare parseComment_line.simps [simp del]

text \<open>\<open>parseComment\<close> is defined in the source and called nowhere.\<close>

definition parseComment :: "jstring \<Rightarrow> pstate \<Rightarrow> bool \<times> pstate" where
  "parseComment text s =
     (if charCodeAt text (cursor s) = Some codeSlash \<and>
         charCodeAt text (cursor s + 1) = Some codeAsterisk then
        (True, s\<lparr>cursor := parseComment_block text (cursor s) + 2\<rparr>)
      else if charCodeAt text (cursor s) = Some codeSlash \<and>
         charCodeAt text (cursor s + 1) = Some codeSlash then
        (True, s\<lparr>cursor := parseComment_line text (cursor s)\<rparr>)
      else (False, s))"

definition parseCharacter :: "jstring \<Rightarrow> nat \<Rightarrow> pstate \<Rightarrow> bool \<times> pstate" where
  "parseCharacter text code s =
     (if charCodeAt text (cursor s) = Some code then
        (True, s\<lparr>out := out s @ [text ! cursor s], cursor := cursor s + 1\<rparr>)
      else (False, s))"

definition skipCharacter :: "jstring \<Rightarrow> nat \<Rightarrow> pstate \<Rightarrow> bool \<times> pstate" where
  "skipCharacter text code s =
     (if charCodeAt text (cursor s) = Some code then (True, s\<lparr>cursor := cursor s + 1\<rparr>)
      else (False, s))"

definition skipEscapeCharacter :: "jstring \<Rightarrow> pstate \<Rightarrow> bool \<times> pstate" where
  "skipEscapeCharacter text s = skipCharacter text codeBackslash s"

definition skipEllipsis :: "jstring \<Rightarrow> pstate \<Rightarrow> bool \<times> pstate" where
  "skipEllipsis text s =
     (let s1 = snd (parseWhitespaceAndSkipComments text s) in
      if charCodeAt text (cursor s1) = Some codeDot \<and>
         charCodeAt text (cursor s1 + 1) = Some codeDot \<and>
         charCodeAt text (cursor s1 + 2) = Some codeDot then
        (let s2 = s1\<lparr>cursor := cursor s1 + 3\<rparr>;
             s3 = snd (parseWhitespaceAndSkipComments text s2);
             s4 = snd (skipCharacter text codeComma s3)
         in (True, s4))
      else (False, s1))"

section \<open>Numbers and keywords\<close>

definition atEndOfNumber :: "jstring \<Rightarrow> nat \<Rightarrow> bool" where
  "atEndOfNumber text i =
     (i \<ge> length text \<or> atIndex isDelimiter text i \<or> atIndex isWhitespace text i)"

definition repairNumberEndingWithNumericSymbol :: "jstring \<Rightarrow> nat \<Rightarrow> pstate \<Rightarrow> pstate" where
  "repairNumberEndingWithNumericSymbol text start s =
     s\<lparr>out := out s @ slice text start (cursor s) @ [codeZero]\<rparr>"

text \<open>\<open>while (isDigit(text.charCodeAt(i))) i++\<close>\<close>

function parseNumber_digits :: "jstring \<Rightarrow> nat \<Rightarrow> nat" where
  "parseNumber_digits text i =
     (if atIndex isDigit text i then parseNumber_digits text (i + 1) else i)"
  by pat_completeness auto
termination
  by (relation "measure (\<lambda>(text, i). length text - i)")
     (auto simp: atIndex_def charCodeAt_def split: if_splits)

declare parseNumber_digits.simps [simp del]

text \<open>\<open>/^0\d/.test(num)\<close>\<close>

definition hasInvalidLeadingZero :: "jstring \<Rightarrow> bool" where
  "hasInvalidLeadingZero num =
     (case num of c # d # _ \<Rightarrow> c = codeZero \<and> isDigit d | _ \<Rightarrow> False)"

text \<open>\<open>parseNumber\<close> returns early at several places; each definition below is the rest
  of its body from one place on: after the digits of the exponent, from the exponent,
  from the fraction, and the whole body.\<close>

definition parseNumber_end :: "jstring \<Rightarrow> nat \<Rightarrow> pstate \<Rightarrow> bool \<times> pstate" where
  "parseNumber_end text start s =
     (if \<not> atEndOfNumber text (cursor s) then (False, s\<lparr>cursor := start\<rparr>)
      else if cursor s > start then
        (let num = slice text start (cursor s)
         in (True, s\<lparr>out := out s @
               (if hasInvalidLeadingZero num then [codeDoubleQuote] @ num @ [codeDoubleQuote]
                else num)\<rparr>))
      else (False, s))"

definition parseNumber_exponent :: "jstring \<Rightarrow> nat \<Rightarrow> pstate \<Rightarrow> bool \<times> pstate" where
  "parseNumber_exponent text start s =
     (if charCodeAt text (cursor s) = Some codeLowercaseE \<or>
         charCodeAt text (cursor s) = Some codeUppercaseE then
        (let s1 = s\<lparr>cursor := cursor s + 1\<rparr>;
             s2 = (if charCodeAt text (cursor s1) = Some codeMinus \<or>
                      charCodeAt text (cursor s1) = Some codePlus
                   then s1\<lparr>cursor := cursor s1 + 1\<rparr> else s1)
         in if atEndOfNumber text (cursor s2) then
              (True, repairNumberEndingWithNumericSymbol text start s2)
            else if \<not> atIndex isDigit text (cursor s2) then (False, s2\<lparr>cursor := start\<rparr>)
            else parseNumber_end text start (s2\<lparr>cursor := parseNumber_digits text (cursor s2)\<rparr>))
      else parseNumber_end text start s)"

definition parseNumber_fraction :: "jstring \<Rightarrow> nat \<Rightarrow> pstate \<Rightarrow> bool \<times> pstate" where
  "parseNumber_fraction text start s =
     (let s1 = s\<lparr>cursor := parseNumber_digits text (cursor s)\<rparr> in
      if charCodeAt text (cursor s1) = Some codeDot then
        (let s2 = s1\<lparr>cursor := cursor s1 + 1\<rparr>
         in if atEndOfNumber text (cursor s2) then
              (True, repairNumberEndingWithNumericSymbol text start s2)
            else if \<not> atIndex isDigit text (cursor s2) then (False, s2\<lparr>cursor := start\<rparr>)
            else parseNumber_exponent text start
                   (s2\<lparr>cursor := parseNumber_digits text (cursor s2)\<rparr>))
      else parseNumber_exponent text start s1)"

definition parseNumber :: "jstring \<Rightarrow> pstate \<Rightarrow> bool \<times> pstate" where
  "parseNumber text s =
     (let start = cursor s in
      if charCodeAt text (cursor s) = Some codeMinus then
        (let s1 = s\<lparr>cursor := cursor s + 1\<rparr>
         in if atEndOfNumber text (cursor s1) then
              (True, repairNumberEndingWithNumericSymbol text start s1)
            else if \<not> atIndex isDigit text (cursor s1) then (False, s1\<lparr>cursor := start\<rparr>)
            else parseNumber_fraction text start s1)
      else parseNumber_fraction text start s)"

definition parseKeyword :: "jstring \<Rightarrow> jstring \<Rightarrow> jstring \<Rightarrow> pstate \<Rightarrow> bool \<times> pstate" where
  "parseKeyword text name val s =
     (if slice text (cursor s) (cursor s + length name) = name then
        (True, s\<lparr>out := out s @ val, cursor := cursor s + length name\<rparr>)
      else (False, s))"

text \<open>A chain of \<open>||\<close>: the next recognizer runs on the state the failed one left.\<close>

definition orElse :: "bool \<times> pstate \<Rightarrow> (pstate \<Rightarrow> bool \<times> pstate) \<Rightarrow> bool \<times> pstate" where
  "orElse r f = (if fst r then r else f (snd r))"

definition parseKeywords :: "jstring \<Rightarrow> pstate \<Rightarrow> bool \<times> pstate" where
  "parseKeywords text s =
     orElse (orElse (orElse (orElse (orElse
       (parseKeyword text (js ''true'') (js ''true'') s)
       (parseKeyword text (js ''false'') (js ''false'')))
       (parseKeyword text (js ''null'') (js ''null'')))
       (parseKeyword text (js ''True'') (js ''true'')))
       (parseKeyword text (js ''False'') (js ''false'')))
       (parseKeyword text (js ''None'') (js ''null''))"

section \<open>The loops of the string and unquoted-string recognizers\<close>

text \<open>\<open>prevNonWhitespaceIndex(start)\<close>\<close>

fun prevNonWhitespaceIndex :: "jstring \<Rightarrow> nat \<Rightarrow> nat" where
  "prevNonWhitespaceIndex text 0 = 0"
| "prevNonWhitespaceIndex text (Suc prev) =
     (if atIndex isWhitespace text (Suc prev) then prevNonWhitespaceIndex text prev
      else Suc prev)"

text \<open>\<open>isDelimiter(text.charAt(prevNonWhitespaceIndex(k - 1)))\<close>: for \<open>k = 0\<close> the index
  is \<open>-1\<close>, where \<open>charAt\<close> gives the empty string, which is no delimiter.\<close>

definition delimiterBefore :: "jstring \<Rightarrow> nat \<Rightarrow> bool" where
  "delimiterBefore text k =
     (if k = 0 then False else atIndex isDelimiter text (prevNonWhitespaceIndex text (k - 1)))"

text \<open>\<open>text.charCodeAt(k - 1) !== codeBackslash\<close>\<close>

definition noBackslashBefore :: "jstring \<Rightarrow> nat \<Rightarrow> bool" where
  "noBackslashBefore text k =
     (if k = 0 then True else charCodeAt text (k - 1) \<noteq> Some codeBackslash)"

text \<open>\<open>let j = 2; while (j < 6 && isHex(text.charCodeAt(i + j))) j++\<close>: recursion on the
  number of steps left.\<close>

fun parseString_hex :: "jstring \<Rightarrow> nat \<Rightarrow> nat \<Rightarrow> nat \<Rightarrow> nat" where
  "parseString_hex text i j 0 = j"
| "parseString_hex text i j (Suc left) =
     (if atIndex isHex text (i + j) then parseString_hex text i (j + 1) left else j)"

text \<open>The first loop of \<open>parseUnquotedString\<close>, up to a delimiter or a quote.\<close>

function parseUnquotedString_scan :: "jstring \<Rightarrow> nat \<Rightarrow> nat" where
  "parseUnquotedString_scan text i =
     (if i < length text \<and> \<not> atIndex isDelimiterExceptSlash text i \<and> \<not> atIndex isQuote text i
      then parseUnquotedString_scan text (i + 1) else i)"
  by pat_completeness auto
termination
  by (relation "measure (\<lambda>(text, i). length text - i)") auto

declare parseUnquotedString_scan.simps [simp del]

text \<open>Its second loop, \<open>while (isWhitespace(text.charCodeAt(i - 1)) && i > 0) i--\<close>.\<close>

fun parseUnquotedString_trim :: "jstring \<Rightarrow> nat \<Rightarrow> nat" where
  "parseUnquotedString_trim text 0 = 0"
| "parseUnquotedString_trim text (Suc k) =
     (if atIndex isWhitespace text k then parseUnquotedString_trim text k else Suc k)"

section \<open>The recursive recognizers\<close>

text \<open>\<open>if (skipEscapeChars) skipEscapeCharacter()\<close>, the end of an iteration of the loop of
  \<open>parseString\<close>.\<close>

definition parseString_next :: "jstring \<Rightarrow> bool \<Rightarrow> pstate \<Rightarrow> pstate" where
  "parseString_next text skipEscapeChars s =
     (if skipEscapeChars then snd (skipEscapeCharacter text s) else s)"

text \<open>The choice of \<open>isEndQuote\<close> from the opening quote.\<close>

definition endQuoteFor :: "nat \<Rightarrow> nat \<Rightarrow> bool" where
  "endQuoteFor c =
     (if isDoubleQuote c then isDoubleQuote
      else if isSingleQuote c then isSingleQuote
      else if isSingleQuoteLike c then isSingleQuoteLike
      else isDoubleQuoteLike)"

text \<open>
  The recognizers \<open>parseValue\<close>, \<open>parseObject\<close>, \<open>parseArray\<close>, \<open>parseString\<close>,
  \<open>parseConcatenatedString\<close> and \<open>parseUnquotedString\<close> call one another. Each body is
  written once, over the recognizers it calls, which it takes as its first arguments under
  their own names; \<open>fueled\<close> below closes the recursion with fuel.
  \<open>parseObject_loop\<close> and \<open>parseArray_loop\<close> are the \<open>while\<close> loops of \<open>parseObject\<close> and
  \<open>parseArray\<close> with their flag \<open>initial\<close>, \<open>parseString_loop\<close> is the \<open>while (true)\<close> of
  \<open>parseString\<close> with the locals \<open>stopAtDelimiter\<close>, \<open>skipEscapeChars\<close>, \<open>isEndQuote\<close>,
  \<open>iBefore\<close>, \<open>oBefore\<close> and \<open>str\<close>, and \<open>parseConcatenatedString_loop\<close> is the loop of
  \<open>parseConcatenatedString\<close> with its local \<open>processed\<close>.
\<close>

type_synonym recognizer = "pstate \<Rightarrow> (bool \<times> pstate) result"

definition parseValue_body ::
  "(recognizer) \<Rightarrow> (recognizer) \<Rightarrow> (bool \<Rightarrow> recognizer) \<Rightarrow> (recognizer) \<Rightarrow> jstring \<Rightarrow> recognizer" where
  "parseValue_body parseObject parseArray parseString parseUnquotedString text s =
     (let s1 = snd (parseWhitespaceAndSkipComments text s) in
      case parseObject s1 of
        OutOfFuel \<Rightarrow> OutOfFuel
      | Throw e \<Rightarrow> Throw e
      | Ok (processedObject, s2) \<Rightarrow>
          if processedObject then Ok (True, snd (parseWhitespaceAndSkipComments text s2))
          else
            (case parseArray s2 of
               OutOfFuel \<Rightarrow> OutOfFuel
             | Throw e \<Rightarrow> Throw e
             | Ok (processedArray, s3) \<Rightarrow>
                 if processedArray then Ok (True, snd (parseWhitespaceAndSkipComments text s3))
                 else
                   (case parseString False s3 of
                      OutOfFuel \<Rightarrow> OutOfFuel
                    | Throw e \<Rightarrow> Throw e
                    | Ok (processedString, s4) \<Rightarrow>
                        if processedString then
                          Ok (True, snd (parseWhitespaceAndSkipComments text s4))
                        else
                          (case orElse (parseNumber text s4) (parseKeywords text) of
                             (processedToken, s5) \<Rightarrow>
                               if processedToken then
                                 Ok (True, snd (parseWhitespaceAndSkipComments text s5))
                               else
                                 (case parseUnquotedString s5 of
                                    OutOfFuel \<Rightarrow> OutOfFuel
                                  | Throw e \<Rightarrow> Throw e
                                  | Ok (processed, s6) \<Rightarrow>
                                      Ok (processed,
                                          snd (parseWhitespaceAndSkipComments text s6)))))))"

definition parseObject_body ::
  "(bool \<Rightarrow> pstate \<Rightarrow> pstate result) \<Rightarrow> jstring \<Rightarrow> recognizer" where
  "parseObject_body parseObject_loop text s =
     (if charCodeAt text (cursor s) = Some codeOpeningBrace then
        (let s1 = s\<lparr>out := out s @ [codeOpeningBrace], cursor := cursor s + 1\<rparr>;
             s2 = snd (parseWhitespaceAndSkipComments text s1);
             skipped = skipCharacter text codeComma s2;
             s3 = (if fst skipped then snd (parseWhitespaceAndSkipComments text (snd skipped))
                   else snd skipped)
         in case parseObject_loop True s3 of
              OutOfFuel \<Rightarrow> OutOfFuel
            | Throw e \<Rightarrow> Throw e
            | Ok s4 \<Rightarrow>
                if charCodeAt text (cursor s4) = Some codeClosingBrace then
                  Ok (True, s4\<lparr>out := out s4 @ [codeClosingBrace], cursor := cursor s4 + 1\<rparr>)
                else
                  Ok (True, s4\<lparr>out := insertBeforeLastWhitespace (out s4) [codeClosingBrace]\<rparr>))
      else Ok (False, s))"

definition parseObject_loop_body ::
  "(bool \<Rightarrow> recognizer) \<Rightarrow> (recognizer) \<Rightarrow> (recognizer) \<Rightarrow> (bool \<Rightarrow> pstate \<Rightarrow> pstate result) \<Rightarrow> jstring \<Rightarrow> bool \<Rightarrow> pstate \<Rightarrow> pstate result" where
  "parseObject_loop_body parseString parseUnquotedString parseValue parseObject_loop text initial s =
     (if cursor s < length text \<and> charCodeAt text (cursor s) \<noteq> Some codeClosingBrace then
        (let s1 =
               (if \<not> initial then
                  (let comma = parseCharacter text codeComma s;
                       s' = (if \<not> fst comma then
                               (snd comma)\<lparr>out := insertBeforeLastWhitespace (out (snd comma)) [codeComma]\<rparr>
                             else snd comma)
                   in snd (parseWhitespaceAndSkipComments text s'))
                else s);
             s2 = snd (skipEllipsis text s1)
         in case parseString False s2 of
              OutOfFuel \<Rightarrow> OutOfFuel
            | Throw e \<Rightarrow> Throw e
            | Ok (processedString, s3) \<Rightarrow>
                (case (if processedString then Ok (True, s3) else parseUnquotedString s3) of
                   OutOfFuel \<Rightarrow> OutOfFuel
                 | Throw e \<Rightarrow> Throw e
                 | Ok (processedKey, s4) \<Rightarrow>
                     if \<not> processedKey then
                       (if charCodeAt text (cursor s4) = Some codeClosingBrace \<or>
                           charCodeAt text (cursor s4) = Some codeOpeningBrace \<or>
                           charCodeAt text (cursor s4) = Some codeClosingBracket \<or>
                           charCodeAt text (cursor s4) = Some codeOpeningBracket \<or>
                           charCodeAt text (cursor s4) = None then
                          Ok (s4\<lparr>out := stripLastOccurrence (out s4) codeComma False\<rparr>)
                        else Throw (ObjectKeyExpected (cursor s4)))
                     else
                       (let s5 = snd (parseWhitespaceAndSkipComments text s4);
                            colon = parseCharacter text codeColon s5;
                            processedColon = fst colon;
                            s6 = snd colon;
                            truncatedText = (cursor s6 \<ge> length text)
                        in if \<not> processedColon \<and>
                              \<not> (atIndex isStartOfValue text (cursor s6) \<or> truncatedText) then
                             Throw (ColonExpected (cursor s6))
                           else
                             (let s7 = (if \<not> processedColon then
                                          s6\<lparr>out := insertBeforeLastWhitespace (out s6) [codeColon]\<rparr>
                                        else s6)
                              in case parseValue s7 of
                                   OutOfFuel \<Rightarrow> OutOfFuel
                                 | Throw e \<Rightarrow> Throw e
                                 | Ok (processedValue, s8) \<Rightarrow>
                                     if \<not> processedValue then
                                       (if processedColon \<or> truncatedText then
                                          parseObject_loop False
                                            (s8\<lparr>out := out s8 @ js ''null''\<rparr>)
                                        else Throw (ColonExpected (cursor s8)))
                                     else parseObject_loop False s8))))
      else Ok s)"

definition parseArray_body ::
  "(bool \<Rightarrow> pstate \<Rightarrow> pstate result) \<Rightarrow> jstring \<Rightarrow> recognizer" where
  "parseArray_body parseArray_loop text s =
     (if charCodeAt text (cursor s) = Some codeOpeningBracket then
        (let s1 = s\<lparr>out := out s @ [codeOpeningBracket], cursor := cursor s + 1\<rparr>;
             s2 = snd (parseWhitespaceAndSkipComments text s1);
             skipped = skipCharacter text codeComma s2;
             s3 = (if fst skipped then snd (parseWhitespaceAndSkipComments text (snd skipped))
                   else snd skipped)
         in case parseArray_loop True s3 of
              OutOfFuel \<Rightarrow> OutOfFuel
            | Throw e \<Rightarrow> Throw e
            | Ok s4 \<Rightarrow>
                if charCodeAt text (cursor s4) = Some codeClosingBracket then
                  Ok (True, s4\<lparr>out := out s4 @ [codeClosingBracket], cursor := cursor s4 + 1\<rparr>)
                else
                  Ok (True, s4\<lparr>out := insertBeforeLastWhitespace (out s4) [codeClosingBracket]\<rparr>))
      else Ok (False, s))"

definition parseArray_loop_body ::
  "(recognizer) \<Rightarrow> (bool \<Rightarrow> pstate \<Rightarrow> pstate result) \<Rightarrow> jstring \<Rightarrow> bool \<Rightarrow> pstate \<Rightarrow> pstate result" where
  "parseArray_loop_body parseValue parseArray_loop text initial s =
     (if cursor s < length text \<and> charCodeAt text (cursor s) \<noteq> Some codeClosingBracket then
        (let s1 =
               (if \<not> initial then
                  (let comma = parseCharacter text codeComma s
                   in if \<not> fst comma then
                        (snd comma)\<lparr>out := insertBeforeLastWhitespace (out (snd comma)) [codeComma]\<rparr>
                      else snd comma)
                else s);
             s2 = snd (skipEllipsis text s1)
         in case parseValue s2 of
              OutOfFuel \<Rightarrow> OutOfFuel
            | Throw e \<Rightarrow> Throw e
            | Ok (processedValue, s3) \<Rightarrow>
                if \<not> processedValue then
                  Ok (s3\<lparr>out := stripLastOccurrence (out s3) codeComma False\<rparr>)
                else parseArray_loop False s3)
      else Ok s)"

definition parseString_body ::
  "(bool \<Rightarrow> bool \<Rightarrow> (nat \<Rightarrow> bool) \<Rightarrow> nat \<Rightarrow> nat \<Rightarrow> jstring \<Rightarrow> recognizer) \<Rightarrow> jstring \<Rightarrow> bool \<Rightarrow> recognizer" where
  "parseString_body parseString_loop text stopAtDelimiter s =
     (let skipEscapeChars = (charCodeAt text (cursor s) = Some codeBackslash);
          s1 = (if skipEscapeChars then s\<lparr>cursor := cursor s + 1\<rparr> else s)
      in if atIndex isQuote text (cursor s1) then
           (let isEndQuote = endQuoteFor (text ! cursor s1);
                iBefore = cursor s1;
                oBefore = length (out s1)
            in parseString_loop stopAtDelimiter skipEscapeChars isEndQuote iBefore oBefore
                 [codeDoubleQuote] (s1\<lparr>cursor := cursor s1 + 1\<rparr>))
         else Ok (False, s1))"

definition parseString_loop_body ::
  "(bool \<Rightarrow> recognizer) \<Rightarrow> (recognizer) \<Rightarrow> (bool \<Rightarrow> bool \<Rightarrow> (nat \<Rightarrow> bool) \<Rightarrow> nat \<Rightarrow> nat \<Rightarrow> jstring \<Rightarrow> recognizer) \<Rightarrow> jstring \<Rightarrow> bool \<Rightarrow> bool \<Rightarrow> (nat \<Rightarrow> bool) \<Rightarrow> nat \<Rightarrow> nat \<Rightarrow> jstring \<Rightarrow> recognizer" where
  "parseString_loop_body parseString parseConcatenatedString parseString_loop text stopAtDelimiter skipEscapeChars isEndQuote iBefore oBefore str s =
     (if cursor s \<ge> length text then
        (if \<not> stopAtDelimiter \<and> delimiterBefore text (cursor s) then
           parseString True (s\<lparr>cursor := iBefore, out := take oBefore (out s)\<rparr>)
         else
           Ok (True, s\<lparr>out := out s @ insertBeforeLastWhitespace str [codeDoubleQuote]\<rparr>))
      else if atIndex isEndQuote text (cursor s) then
        (let iQuote = cursor s;
             oQuote = length str;
             str1 = str @ [codeDoubleQuote];
             s1 = s\<lparr>cursor := cursor s + 1, out := out s @ str1\<rparr>;
             s2 = snd (parseWhitespaceAndSkipComments text s1)
         in if stopAtDelimiter \<or> cursor s2 \<ge> length text \<or> atIndex isDelimiter text (cursor s2) \<or>
               atIndex isQuote text (cursor s2) \<or> atIndex isDigit text (cursor s2) then
              (case parseConcatenatedString s2 of
                 OutOfFuel \<Rightarrow> OutOfFuel
               | Throw e \<Rightarrow> Throw e
               | Ok (processed, s3) \<Rightarrow> Ok (True, s3))
            else if delimiterBefore text iQuote then
              parseString True (s2\<lparr>cursor := iBefore, out := take oBefore (out s2)\<rparr>)
            else
              parseString_loop stopAtDelimiter skipEscapeChars isEndQuote iBefore oBefore
                (take oQuote str1 @ [codeBackslash] @ drop oQuote str1)
                (parseString_next text skipEscapeChars
                   (s2\<lparr>out := take oBefore (out s2), cursor := iQuote + 1\<rparr>)))
      else if stopAtDelimiter \<and> atIndex isDelimiter text (cursor s) then
        (case parseConcatenatedString
                (s\<lparr>out := out s @ insertBeforeLastWhitespace str [codeDoubleQuote]\<rparr>) of
           OutOfFuel \<Rightarrow> OutOfFuel
         | Throw e \<Rightarrow> Throw e
         | Ok (processed, s1) \<Rightarrow> Ok (True, s1))
      else if charCodeAt text (cursor s) = Some codeBackslash then
        (if atIndex escapeCharacters text (cursor s + 1) then
           parseString_loop stopAtDelimiter skipEscapeChars isEndQuote iBefore oBefore
             (str @ slice text (cursor s) (cursor s + 2))
             (parseString_next text skipEscapeChars (s\<lparr>cursor := cursor s + 2\<rparr>))
         else if charCodeAt text (cursor s + 1) = Some 0x75 then
           (let j = parseString_hex text (cursor s) 2 4
            in if j = 6 then
                 parseString_loop stopAtDelimiter skipEscapeChars isEndQuote iBefore oBefore
                   (str @ slice text (cursor s) (cursor s + 6))
                   (parseString_next text skipEscapeChars (s\<lparr>cursor := cursor s + 6\<rparr>))
               else if cursor s + j \<ge> length text then
                 parseString_loop stopAtDelimiter skipEscapeChars isEndQuote iBefore oBefore
                   str (parseString_next text skipEscapeChars (s\<lparr>cursor := length text\<rparr>))
               else Throw (InvalidUnicodeCharacter (cursor s)))
         else
           parseString_loop stopAtDelimiter skipEscapeChars isEndQuote iBefore oBefore
             (str @ slice text (cursor s + 1) (cursor s + 2))
             (parseString_next text skipEscapeChars (s\<lparr>cursor := cursor s + 2\<rparr>)))
      else
        (let code = text ! cursor s
         in if code = codeDoubleQuote \<and> noBackslashBefore text (cursor s) then
              parseString_loop stopAtDelimiter skipEscapeChars isEndQuote iBefore oBefore
                (str @ [codeBackslash, code])
                (parseString_next text skipEscapeChars (s\<lparr>cursor := cursor s + 1\<rparr>))
            else if isControlCharacter code then
              parseString_loop stopAtDelimiter skipEscapeChars isEndQuote iBefore oBefore
                (str @ (case controlCharacters code of Some esc \<Rightarrow> esc
                        | None \<Rightarrow> js ''undefined''))
                (parseString_next text skipEscapeChars (s\<lparr>cursor := cursor s + 1\<rparr>))
            else if \<not> isValidStringCharacter code then Throw (InvalidCharacter (cursor s))
            else
              parseString_loop stopAtDelimiter skipEscapeChars isEndQuote iBefore oBefore
                (str @ [code])
                (parseString_next text skipEscapeChars (s\<lparr>cursor := cursor s + 1\<rparr>))))"

definition parseConcatenatedString_body ::
  "(bool \<Rightarrow> recognizer) \<Rightarrow> jstring \<Rightarrow> recognizer" where
  "parseConcatenatedString_body parseConcatenatedString_loop text s =
     parseConcatenatedString_loop False (snd (parseWhitespaceAndSkipComments text s))"

definition parseConcatenatedString_loop_body ::
  "(bool \<Rightarrow> recognizer) \<Rightarrow> (bool \<Rightarrow> recognizer) \<Rightarrow> jstring \<Rightarrow> bool \<Rightarrow> recognizer" where
  "parseConcatenatedString_loop_body parseString parseConcatenatedString_loop text processed s =
     (if charCodeAt text (cursor s) = Some codePlus then
        (let s1 = snd (parseWhitespaceAndSkipComments text (s\<lparr>cursor := cursor s + 1\<rparr>));
             s2 = s1\<lparr>out := stripLastOccurrence (out s1) codeDoubleQuote True\<rparr>;
             start = length (out s2)
         in case parseString False s2 of
              OutOfFuel \<Rightarrow> OutOfFuel
            | Throw e \<Rightarrow> Throw e
            | Ok (parsedStr, s3) \<Rightarrow>
                parseConcatenatedString_loop True
                  (if parsedStr then s3\<lparr>out := removeAtIndex (out s3) start 1\<rparr>
                   else s3\<lparr>out := insertBeforeLastWhitespace (out s3) [codeDoubleQuote]\<rparr>))
      else Ok (processed, s))"

definition parseUnquotedString_body ::
  "(recognizer) \<Rightarrow> jstring \<Rightarrow> recognizer" where
  "parseUnquotedString_body parseValue text s =
     (let start = cursor s;
          s1 = s\<lparr>cursor := parseUnquotedString_scan text (cursor s)\<rparr>
      in if cursor s1 > start then
           (if charCodeAt text (cursor s1) = Some codeOpenParenthesis \<and>
               isFunctionName (trim (slice text start (cursor s1))) then
              (case parseValue (s1\<lparr>cursor := cursor s1 + 1\<rparr>) of
                 OutOfFuel \<Rightarrow> OutOfFuel
               | Throw e \<Rightarrow> Throw e
               | Ok (processedValue, s2) \<Rightarrow>
                   if charCodeAt text (cursor s2) = Some codeCloseParenthesis then
                     (let s3 = s2\<lparr>cursor := cursor s2 + 1\<rparr>
                      in if charCodeAt text (cursor s3) = Some codeSemicolon then
                           Ok (True, s3\<lparr>cursor := cursor s3 + 1\<rparr>)
                         else Ok (True, s3))
                   else Ok (True, s2))
            else
              (let s2 = s1\<lparr>cursor := parseUnquotedString_trim text (cursor s1)\<rparr>;
                   symbol = slice text start (cursor s2);
                   s3 = s2\<lparr>out := out s2 @
                          (if symbol = js ''undefined'' then js ''null'' else JSON_stringify symbol)\<rparr>
               in if charCodeAt text (cursor s3) = Some codeDoubleQuote then
                    Ok (True, s3\<lparr>cursor := cursor s3 + 1\<rparr>)
                  else Ok (True, s3)))
         else Ok (False, s1))"

text \<open>
  The recognizers with \<open>n\<close> units of fuel: none returns with no fuel, and with \<open>Suc n\<close>
  each runs its body over the recognizers with \<open>n\<close>, so that every call and every loop
  iteration passes on one unit less.
\<close>

record recognizers =
  r_parseValue :: recognizer
  r_parseObject :: recognizer
  r_parseObject_loop :: "bool \<Rightarrow> pstate \<Rightarrow> pstate result"
  r_parseArray :: recognizer
  r_parseArray_loop :: "bool \<Rightarrow> pstate \<Rightarrow> pstate result"
  r_parseString :: "bool \<Rightarrow> recognizer"
  r_parseString_loop :: "bool \<Rightarrow> bool \<Rightarrow> (nat \<Rightarrow> bool) \<Rightarrow> nat \<Rightarrow> nat \<Rightarrow> jstring \<Rightarrow> recognizer"
  r_parseConcatenatedString :: recognizer
  r_parseConcatenatedString_loop :: "bool \<Rightarrow> recognizer"
  r_parseUnquotedString :: recognizer

primrec fueled :: "nat \<Rightarrow> jstring \<Rightarrow> recognizers" where
  "fueled 0 text =
     \<lparr>r_parseValue = (\<lambda>s. OutOfFuel),
      r_parseObject = (\<lambda>s. OutOfFuel),
      r_parseObject_loop = (\<lambda>initial s. OutOfFuel),
      r_parseArray = (\<lambda>s. OutOfFuel),
      r_parseArray_loop = (\<lambda>initial s. OutOfFuel),
      r_parseString = (\<lambda>stopAtDelimiter s. OutOfFuel),
      r_parseString_loop =
        (\<lambda>stopAtDelimiter skipEscapeChars isEndQuote iBefore oBefore str s. OutOfFuel),
      r_parseConcatenatedString = (\<lambda>s. OutOfFuel),
      r_parseConcatenatedString_loop = (\<lambda>processed s. OutOfFuel),
      r_parseUnquotedString = (\<lambda>s. OutOfFuel)\<rparr>"
| "fueled (Suc n) text =
     \<lparr>r_parseValue =
        parseValue_body (r_parseObject (fueled n text)) (r_parseArray (fueled n text))
          (r_parseString (fueled n text)) (r_parseUnquotedString (fueled n text)) text,
      r_parseObject = parseObject_body (r_parseObject_loop (fueled n text)) text,
      r_parseObject_loop =
        parseObject_loop_body (r_parseString (fueled n text))
          (r_parseUnquotedString (fueled n text)) (r_parseValue (fueled n text))
          (r_parseObject_loop (fueled n text)) text,
      r_parseArray = parseArray_body (r_parseArray_loop (fueled n text)) text,
      r_parseArray_loop =
        parseArray_loop_body (r_parseValue (fueled n text))
          (r_parseArray_loop (fueled n text)) text,
      r_parseString = parseString_body (r_parseString_loop (fueled n text)) text,
      r_parseString_loop =
        parseString_loop_body (r_parseString (fueled n text))
          (r_parseConcatenatedString (fueled n text))
          (r_parseString_loop (fueled n text)) text,
      r_parseConcatenatedString =
        parseConcatenatedString_body (r_parseConcatenatedString_loop (fueled n text)) text,
      r_parseConcatenatedString_loop =
        parseConcatenatedString_loop_body (r_parseString (fueled n text))
          (r_parseConcatenatedString_loop (fueled n text)) text,
      r_parseUnquotedString = parseUnquotedString_body (r_parseValue (fueled n text)) text\<rparr>"

definition parseValue :: "nat \<Rightarrow> jstring \<Rightarrow> recognizer" where
  "parseValue n text = r_parseValue (fueled n text)"

definition parseObject :: "nat \<Rightarrow> jstring \<Rightarrow> recognizer" where
  "parseObject n text = r_parseObject (fueled n text)"

definition parseObject_loop :: "nat \<Rightarrow> jstring \<Rightarrow> bool \<Rightarrow> pstate \<Rightarrow> pstate result" where
  "parseObject_loop n text = r_parseObject_loop (fueled n text)"

definition parseArray :: "nat \<Rightarrow> jstring \<Rightarrow> recognizer" where
  "parseArray n text = r_parseArray (fueled n text)"

definition parseArray_loop :: "nat \<Rightarrow> jstring \<Rightarrow> bool \<Rightarrow> pstate \<Rightarrow> pstate result" where
  "parseArray_loop n text = r_parseArray_loop (fueled n text)"

definition parseString :: "nat \<Rightarrow> jstring \<Rightarrow> bool \<Rightarrow> recognizer" where
  "parseString n text = r_parseString (fueled n text)"

definition parseString_loop ::
  "nat \<Rightarrow> jstring \<Rightarrow> bool \<Rightarrow> bool \<Rightarrow> (nat \<Rightarrow> bool) \<Rightarrow> nat \<Rightarrow> nat \<Rightarrow> jstring \<Rightarrow> recognizer" where
  "parseString_loop n text = r_parseString_loop (fueled n text)"

definition parseConcatenatedString :: "nat \<Rightarrow> jstring \<Rightarrow> recognizer" where
  "parseConcatenatedString n text = r_parseConcatenatedString (fueled n text)"

definition parseConcatenatedString_loop :: "nat \<Rightarrow> jstring \<Rightarrow> bool \<Rightarrow> recognizer" where
  "parseConcatenatedString_loop n text = r_parseConcatenatedString_loop (fueled n text)"

definition parseUnquotedString :: "nat \<Rightarrow> jstring \<Rightarrow> recognizer" where
  "parseUnquotedString n text = r_parseUnquotedString (fueled n text)"

section \<open>Newline delimited JSON and the top level\<close>

text \<open>The loop of \<open>parseNewlineDelimitedJSON\<close>, with its flag \<open>initial\<close>.\<close>

fun parseNewlineDelimitedJSON_loop :: "nat \<Rightarrow> jstring \<Rightarrow> bool \<Rightarrow> pstate \<Rightarrow> pstate result" where
  "parseNewlineDelimitedJSON_loop 0 text initial s = OutOfFuel"
| "parseNewlineDelimitedJSON_loop (Suc n) text initial s =
     (let s1 =
            (if \<not> initial then
               (let comma = parseCharacter text codeComma s
                in if \<not> fst comma then
                     (snd comma)\<lparr>out := insertBeforeLastWhitespace (out (snd comma)) [codeComma]\<rparr>
                   else snd comma)
             else s)
      in case parseValue n text s1 of
           OutOfFuel \<Rightarrow> OutOfFuel
         | Throw e \<Rightarrow> Throw e
         | Ok (processedValue, s2) \<Rightarrow>
             if processedValue then parseNewlineDelimitedJSON_loop n text False s2 else Ok s2)"

definition parseNewlineDelimitedJSON :: "nat \<Rightarrow> jstring \<Rightarrow> pstate \<Rightarrow> pstate result" where
  "parseNewlineDelimitedJSON n text s =
     (case parseNewlineDelimitedJSON_loop n text True s of
        OutOfFuel \<Rightarrow> OutOfFuel
      | Throw e \<Rightarrow> Throw e
      | Ok s1 \<Rightarrow>
          Ok (s1\<lparr>out := [codeOpeningBracket, codeNewline] @
                          stripLastOccurrence (out s1) codeComma False @
                          [codeNewline, codeClosingBracket]\<rparr>))"

text \<open>The loop of \<open>jsonrepair\<close> over redundant closing braces and brackets.\<close>

function jsonrepair_loop :: "jstring \<Rightarrow> pstate \<Rightarrow> pstate" where
  "jsonrepair_loop text s =
     (if charCodeAt text (cursor s) = Some codeClosingBrace \<or>
         charCodeAt text (cursor s) = Some codeClosingBracket then
        jsonrepair_loop text (snd (parseWhitespaceAndSkipComments text (s\<lparr>cursor := cursor s + 1\<rparr>)))
      else s)"
  by pat_completeness auto
termination
proof (relation "measure (\<lambda>(text, s). length text - cursor s)")
  show "wf (measure (\<lambda>(text, s). length text - cursor s))"
    by simp
next
  fix tx :: jstring and s :: pstate
  assume c: "charCodeAt tx (cursor s) = Some codeClosingBrace \<or>
             charCodeAt tx (cursor s) = Some codeClosingBracket"
  have mono: "i \<le> fst (parseWhitespace_loop t i w)" for t i w
  proof (induction t i w rule: parseWhitespace_loop.induct)
    case (1 t i whitespace)
    show ?case
    proof (cases "atIndex isWhitespace t i")
      case True
      then show ?thesis
        using 1(1) by (subst parseWhitespace_loop.simps) simp
    next
      case False
      note normal = this
      show ?thesis
      proof (cases "atIndex isSpecialWhitespace t i")
        case True
        then show ?thesis
          using normal 1(2) by (subst parseWhitespace_loop.simps) simp
      next
        case False
        then show ?thesis
          using normal by (subst parseWhitespace_loop.simps) simp
      qed
    qed
  qed
  have "cursor s < length tx"
    using c by (auto simp: charCodeAt_def split: if_splits)
  moreover have "cursor s + 1 \<le>
      cursor (snd (parseWhitespaceAndSkipComments tx (s\<lparr>cursor := cursor s + 1\<rparr>)))"
    using mono [of "cursor s + 1" tx "[]"]
    by (cases "parseWhitespace_loop tx (cursor s + 1) []")
       (simp add: parseWhitespaceAndSkipComments_def parseWhitespace_def Let_def)
  ultimately show "((tx, snd (parseWhitespaceAndSkipComments tx (s\<lparr>cursor := cursor s + 1\<rparr>))),
      (tx, s)) \<in> measure (\<lambda>(text, s). length text - cursor s)"
    by simp
qed

declare jsonrepair_loop.simps [simp del]

text \<open>\<open>jsonrepair\<close>, with the fuel of its recognizers as first argument.\<close>

definition jsonrepair :: "nat \<Rightarrow> jstring \<Rightarrow> jstring result" where
  "jsonrepair n text =
     (case parseValue n text \<lparr>cursor = 0, out = []\<rparr> of
        OutOfFuel \<Rightarrow> OutOfFuel
      | Throw e \<Rightarrow> Throw e
      | Ok (processed, s1) \<Rightarrow>
          if \<not> processed then Throw (UnexpectedEnd (length text))
          else
            (let comma = parseCharacter text codeComma s1;
                 processedComma = fst comma;
                 s2 = (if processedComma then snd (parseWhitespaceAndSkipComments text (snd comma))
                       else snd comma)
             in case (if atIndex isStartOfValue text (cursor s2) \<and> endsWithCommaOrNewline (out s2)
                      then parseNewlineDelimitedJSON n text
                             (if \<not> processedComma then
                                s2\<lparr>out := insertBeforeLastWhitespace (out s2) [codeComma]\<rparr>
                              else s2)
                      else if processedComma then
                        Ok (s2\<lparr>out := stripLastOccurrence (out s2) codeComma False\<rparr>)
                      else Ok s2) of
                  OutOfFuel \<Rightarrow> OutOfFuel
                | Throw e \<Rightarrow> Throw e
                | Ok s3 \<Rightarrow>
                    (let s4 = jsonrepair_loop text s3
                     in if cursor s4 \<ge> length text then Ok (out s4)
                        else Throw (UnexpectedCharacter (cursor s4)))))"

section \<open>Notions used in the statements\<close>

text \<open>What is at the cursor: the first code unit of the rest of the text, if any, and
  whether it satisfies a classifier.\<close>

definition headOf :: "jstring \<Rightarrow> nat option" where
  "headOf r = (case r of [] \<Rightarrow> None | c # _ \<Rightarrow> Some c)"

definition headIs :: "(nat \<Rightarrow> bool) \<Rightarrow> jstring \<Rightarrow> bool" where
  "headIs p r = (case r of [] \<Rightarrow> False | c # _ \<Rightarrow> p c)"

text \<open>
  The outcomes \<open>parseNumber\<close> can have from a state \<open>s\<close>: it fails and leaves the state as
  it was, or it succeeds, has moved the cursor forward over the text \<open>consumed\<close>, and has
  appended to the output the text consumed, the text consumed in double quotes, or the
  text consumed and a zero; the last only at the end of a number and after a minus, a
  dot, an exponent marker or a sign.
\<close>

definition numberOutcome :: "jstring \<Rightarrow> pstate \<Rightarrow> bool \<times> pstate \<Rightarrow> bool" where
  "numberOutcome text s r =
     (case r of (processed, s') \<Rightarrow>
        if \<not> processed then s' = s
        else cursor s < cursor s' \<and>
          (let consumed = slice text (cursor s) (cursor s') in
             out s' = out s @ consumed \<or>
             out s' = out s @ [codeDoubleQuote] @ consumed @ [codeDoubleQuote] \<or>
             (out s' = out s @ consumed @ [codeZero] \<and> atEndOfNumber text (cursor s') \<and>
              last consumed \<in> {codeMinus, codeDot, codeLowercaseE, codeUppercaseE, codePlus})))"

text \<open>
  Where the parser calls \<open>parseUnquotedString\<close>: at the start of the text, at a character
  that is not whitespace, or right after one.
\<close>

definition unquotedStart :: "jstring \<Rightarrow> nat \<Rightarrow> bool" where
  "unquotedStart text i =
     (i = 0 \<or> \<not> atIndex isWhitespace text i \<or> \<not> atIndex isWhitespace text (i - 1))"

text \<open>
  The cursor at the return of a recognizer with \<open>n\<close> units of fuel is not behind the cursor
  at its call. For the loop of \<open>parseString\<close> the bound is \<open>iBefore\<close>, the index of the
  opening quote, where a restart puts the cursor. The last three parts say that a string
  tried at a quote does not fail, and that a string that fails leaves the cursor where
  \<open>parseUnquotedString\<close> may start.
\<close>

definition cursorsAdvance :: "nat \<Rightarrow> jstring \<Rightarrow> bool" where
  "cursorsAdvance n text =
     ((\<forall>s p s'. parseValue n text s = Ok (p, s') \<longrightarrow> cursor s \<le> cursor s') \<and>
      (\<forall>s p s'. parseObject n text s = Ok (p, s') \<longrightarrow> cursor s \<le> cursor s') \<and>
      (\<forall>b s s'. parseObject_loop n text b s = Ok s' \<longrightarrow> cursor s \<le> cursor s') \<and>
      (\<forall>s p s'. parseArray n text s = Ok (p, s') \<longrightarrow> cursor s \<le> cursor s') \<and>
      (\<forall>b s s'. parseArray_loop n text b s = Ok s' \<longrightarrow> cursor s \<le> cursor s') \<and>
      (\<forall>b s p s'. parseString n text b s = Ok (p, s') \<longrightarrow> cursor s \<le> cursor s') \<and>
      (\<forall>b e q iB oB str s p s'.
         iB \<le> cursor s \<longrightarrow> parseString_loop n text b e q iB oB str s = Ok (p, s') \<longrightarrow>
         iB \<le> cursor s') \<and>
      (\<forall>s p s'. parseConcatenatedString n text s = Ok (p, s') \<longrightarrow> cursor s \<le> cursor s') \<and>
      (\<forall>b s p s'. parseConcatenatedString_loop n text b s = Ok (p, s') \<longrightarrow>
         cursor s \<le> cursor s') \<and>
      (\<forall>s p s'. unquotedStart text (cursor s) \<longrightarrow> parseUnquotedString n text s = Ok (p, s') \<longrightarrow>
         cursor s \<le> cursor s') \<and>
      (\<forall>b s p s'. atIndex isQuote text (cursor s) \<longrightarrow> parseString n text b s = Ok (p, s') \<longrightarrow> p) \<and>
      (\<forall>b e q iB oB str s p s'.
         atIndex isQuote text iB \<longrightarrow> parseString_loop n text b e q iB oB str s = Ok (p, s') \<longrightarrow> p) \<and>
      (\<forall>b s s'. unquotedStart text (cursor s) \<longrightarrow> parseString n text b s = Ok (False, s') \<longrightarrow>
         unquotedStart text (cursor s')))"

subsection \<open>Comments\<close>

text \<open>A text holds the end of a block comment: an asterisk with a slash right after
  it.\<close>

fun hasCommentEnd :: "jstring \<Rightarrow> bool" where
  "hasCommentEnd (a # b # r) = ((a = codeAsterisk \<and> b = codeSlash) \<or> hasCommentEnd (b # r))"
| "hasCommentEnd [a] = False"
| "hasCommentEnd [] = False"

subsection \<open>Strings of JSON and their concatenations\<close>

text \<open>
  A string of JSON in double quotes, as the list of its items: a character that needs no
  escape, one of the escapes \<open>\" \\ \/ \b \f \n \r \t\<close>, or \<open>\u\<close> and four hexadecimal
  digits.
\<close>

datatype item = Plain nat | Escape nat | Unicode nat nat nat nat

fun renderItem :: "item \<Rightarrow> jstring" where
  "renderItem (Plain c) = [c]"
| "renderItem (Escape c) = [codeBackslash, c]"
| "renderItem (Unicode a b c d) = [codeBackslash, 0x75, a, b, c, d]"

fun wfItem :: "item \<Rightarrow> bool" where
  "wfItem (Plain c) = (0x20 \<le> c \<and> c \<noteq> codeDoubleQuote \<and> c \<noteq> codeBackslash)"
| "wfItem (Escape c) =
     (c = codeDoubleQuote \<or> c = codeBackslash \<or> c = codeSlash \<or> c = 0x62 \<or> c = 0x66 \<or>
      c = 0x6e \<or> c = 0x72 \<or> c = 0x74)"
| "wfItem (Unicode a b c d) = (isHex a \<and> isHex b \<and> isHex c \<and> isHex d)"

definition renderItems :: "item list \<Rightarrow> jstring" where
  "renderItems items = concat (map renderItem items)"

definition renderString :: "item list \<Rightarrow> jstring" where
  "renderString items = [codeDoubleQuote] @ renderItems items @ [codeDoubleQuote]"

text \<open>What follows a value in JSON: the end of the text, a comma, a colon, or a closing
  bracket or brace.\<close>

definition valueEnd :: "jstring \<Rightarrow> bool" where
  "valueEnd r =
     (case r of [] \<Rightarrow> True
      | c # _ \<Rightarrow> c = codeComma \<or> c = codeColon \<or> c = codeClosingBracket \<or> c = codeClosingBrace)"

text \<open>What can follow a value and the whitespace \<open>w\<close> after it where more than one value
  stands in a text: the end of a value, or behind whitespace the start of an object, an
  array, a string or a number without sign.\<close>

definition lineStart :: "nat \<Rightarrow> bool" where
  "lineStart c =
     (c = codeOpeningBrace \<or> c = codeOpeningBracket \<or> c = codeDoubleQuote \<or> isDigit c)"

definition follows :: "jstring \<Rightarrow> jstring \<Rightarrow> bool" where
  "follows w r = (valueEnd r \<or> (w \<noteq> [] \<and> headIs lineStart r))"

text \<open>
  A concatenation: a string, and operands, each of them whitespace, a plus sign,
  whitespace and a string. \<open>joined\<close> is the items of the one string the concatenation
  stands for, and \<open>concatenationFuel\<close> the fuel \<open>parseString\<close> uses on it.
\<close>

datatype operand = Operand jstring jstring "item list"

fun renderOperand :: "operand \<Rightarrow> jstring" where
  "renderOperand (Operand w1 w2 xs) = w1 @ [codePlus] @ w2 @ renderString xs"

fun wfOperand :: "operand \<Rightarrow> bool" where
  "wfOperand (Operand w1 w2 xs) =
     (list_all isWhitespace w1 \<and> list_all isWhitespace w2 \<and> list_all wfItem xs)"

fun operandItems :: "operand \<Rightarrow> item list" where
  "operandItems (Operand w1 w2 xs) = xs"

definition concatenation :: "item list \<Rightarrow> operand list \<Rightarrow> jstring" where
  "concatenation xs gs = renderString xs @ concat (map renderOperand gs)"

definition joined :: "item list \<Rightarrow> operand list \<Rightarrow> item list" where
  "joined xs gs = xs @ concat (map operandItems gs)"

definition concatenationFuel :: "item list \<Rightarrow> operand list \<Rightarrow> nat" where
  "concatenationFuel xs gs = length xs + 4 + sum_list (map (\<lambda>g. length (operandItems g) + 4) gs)"

subsection \<open>Texts of JSON\<close>

text \<open>
  The grammar of JSON (ECMA-404), as the syntax trees of its texts with the whitespace
  they hold. A number is its sign, the digits of its integer part, the digits of its
  fraction (none: no fraction), its exponent marker with the sign (none: no exponent) and
  the digits of the exponent. An array and an object hold the whitespace after the
  opening bracket and their elements and members; an element is a value between
  whitespace, a member a key between whitespace, a colon and an element.
  \<open>renderElement\<close> is the text of a tree, \<open>wfElement\<close> says that the whitespace is
  whitespace, the digits digits and the strings strings of JSON.
\<close>

fun joinComma :: "jstring list \<Rightarrow> jstring" where
  "joinComma [] = []"
| "joinComma [x] = x"
| "joinComma (x # y # ys) = x @ [codeComma] @ joinComma (y # ys)"

datatype json =
    JNull | JTrue | JFalse
  | JNumber jstring jstring jstring jstring jstring
  | JString "item list"
  | JArray jstring "element list"
  | JObject jstring "member list"
and element = Element jstring json jstring
and member = Member jstring "item list" jstring element

definition renderNumber :: "jstring \<Rightarrow> jstring \<Rightarrow> jstring \<Rightarrow> jstring \<Rightarrow> jstring \<Rightarrow> jstring" where
  "renderNumber sg ds fs em es =
     sg @ ds @ (if fs = [] then [] else codeDot # fs) @ em @ es"

definition wfNumber :: "jstring \<Rightarrow> jstring \<Rightarrow> jstring \<Rightarrow> jstring \<Rightarrow> jstring \<Rightarrow> bool" where
  "wfNumber sg ds fs em es =
     ((sg = [] \<or> sg = [codeMinus]) \<and>
      ds \<noteq> [] \<and> list_all isDigit ds \<and> (ds = [codeZero] \<or> hd ds \<noteq> codeZero) \<and>
      list_all isDigit fs \<and>
      (if em = [] then es = []
       else (em = [codeLowercaseE] \<or> em = [codeUppercaseE] \<or>
             em = [codeLowercaseE, codePlus] \<or> em = [codeUppercaseE, codePlus] \<or>
             em = [codeLowercaseE, codeMinus] \<or> em = [codeUppercaseE, codeMinus]) \<and>
            es \<noteq> [] \<and> list_all isDigit es))"

primrec renderValue :: "json \<Rightarrow> jstring"
  and renderElement :: "element \<Rightarrow> jstring"
  and renderMember :: "member \<Rightarrow> jstring" where
  "renderValue JNull = js ''null''"
| "renderValue JTrue = js ''true''"
| "renderValue JFalse = js ''false''"
| "renderValue (JNumber sg ds fs em es) = renderNumber sg ds fs em es"
| "renderValue (JString xs) = renderString xs"
| "renderValue (JArray w es) =
     [codeOpeningBracket] @ w @ joinComma (map renderElement es) @ [codeClosingBracket]"
| "renderValue (JObject w ms) =
     [codeOpeningBrace] @ w @ joinComma (map renderMember ms) @ [codeClosingBrace]"
| "renderElement (Element w1 v w2) = w1 @ renderValue v @ w2"
| "renderMember (Member w1 k w2 e) = w1 @ renderString k @ w2 @ [codeColon] @ renderElement e"

primrec wfValue :: "json \<Rightarrow> bool"
  and wfElement :: "element \<Rightarrow> bool"
  and wfMember :: "member \<Rightarrow> bool" where
  "wfValue JNull = True"
| "wfValue JTrue = True"
| "wfValue JFalse = True"
| "wfValue (JNumber sg ds fs em es) = wfNumber sg ds fs em es"
| "wfValue (JString xs) = list_all wfItem xs"
| "wfValue (JArray w es) = (list_all isWhitespace w \<and> list_all wfElement es)"
| "wfValue (JObject w ms) = (list_all isWhitespace w \<and> list_all wfMember ms)"
| "wfElement (Element w1 v w2) =
     (list_all isWhitespace w1 \<and> wfValue v \<and> list_all isWhitespace w2)"
| "wfMember (Member w1 k w2 e) =
     (list_all isWhitespace w1 \<and> list_all wfItem k \<and> list_all isWhitespace w2 \<and> wfElement e)"

text \<open>
  \<open>parseValue\<close> copies the text \<open>x\<close>: wherever \<open>x\<close> stands in a text, followed by whitespace
  and what can follow a value, \<open>parseValue\<close> with more fuel than twice the length of \<open>x\<close>
  returns true at the end of that whitespace and has appended \<open>x\<close> and the whitespace to
  the output.
\<close>

definition copies :: "jstring \<Rightarrow> bool" where
  "copies x =
     (\<forall>text i b w r n.
        list_all isWhitespace w \<and> follows w r \<and> drop i text = x @ w @ r \<and> 2 * length x < n \<longrightarrow>
        parseValue n text \<lparr>cursor = i, out = b\<rparr> =
          Ok (True, \<lparr>cursor = i + length x + length w, out = b @ x @ w\<rparr>))"

text \<open>What a value of JSON starts with.\<close>

definition valueStart :: "nat \<Rightarrow> bool" where
  "valueStart c =
     (c = codeOpeningBrace \<or> c = codeOpeningBracket \<or> c = codeDoubleQuote \<or> isDigit c \<or>
      c = codeMinus \<or> c = 0x74 \<or> c = 0x66 \<or> c = 0x6e)"

text \<open>\<open>parseValue\<close> copies the value of an element, and of the element of a member.\<close>

definition elementCopies :: "element \<Rightarrow> bool" where
  "elementCopies e = (case e of Element w1 v w2 \<Rightarrow> copies (renderValue v))"

definition memberCopies :: "member \<Rightarrow> bool" where
  "memberCopies m = (case m of Member w1 k w2 e \<Rightarrow> elementCopies e)"

subsection \<open>Newline delimited JSON\<close>

text \<open>
  Values of JSON one after the other: after the first value come lines, each of them
  whitespace, a comma or none, whitespace and a value. Where the comma is missing there is
  whitespace in its place and the value starts as \<open>lineStart\<close> says. \<open>repairedLine\<close> is
  the line with its comma, and \<open>startsList\<close> says of the first line that it has a comma or
  that its whitespace ends, spaces, tabs and carriage returns apart, with a newline.
\<close>

datatype line = Line jstring bool jstring json

fun renderLine :: "line \<Rightarrow> jstring" where
  "renderLine (Line w1 comma w2 v) =
     w1 @ (if comma then [codeComma] else []) @ w2 @ renderValue v"

fun repairedLine :: "line \<Rightarrow> jstring" where
  "repairedLine (Line w1 comma w2 v) = w1 @ [codeComma] @ w2 @ renderValue v"

fun wfLine :: "line \<Rightarrow> bool" where
  "wfLine (Line w1 comma w2 v) =
     (list_all isWhitespace w1 \<and> list_all isWhitespace w2 \<and> wfValue v \<and>
      (comma \<or> (w1 = [] \<and> w2 \<noteq> [] \<and> headIs lineStart (renderValue v))))"

fun startsList :: "line \<Rightarrow> bool" where
  "startsList (Line w1 comma w2 v) = (comma \<or> endsWithCommaOrNewline w2)"

section \<open>The recursion equations of the recognizers\<close>

text \<open>With no fuel no recognizer returns; with \<open>Suc n\<close> each is its body over the
  recognizers with \<open>n\<close>.\<close>

lemma parseValue_0: "parseValue 0 text s = OutOfFuel"
  by (simp add: parseValue_def)

lemma parseValue_Suc:
  "parseValue (Suc n) text s =
     parseValue_body (parseObject n text) (parseArray n text) (parseString n text) (parseUnquotedString n text) text s"
  by (simp add: parseValue_def parseObject_def parseObject_loop_def parseArray_def parseArray_loop_def parseString_def parseString_loop_def parseConcatenatedString_def parseConcatenatedString_loop_def parseUnquotedString_def)

lemma parseObject_0: "parseObject 0 text s = OutOfFuel"
  by (simp add: parseObject_def)

lemma parseObject_Suc:
  "parseObject (Suc n) text s =
     parseObject_body (parseObject_loop n text) text s"
  by (simp add: parseValue_def parseObject_def parseObject_loop_def parseArray_def parseArray_loop_def parseString_def parseString_loop_def parseConcatenatedString_def parseConcatenatedString_loop_def parseUnquotedString_def)

lemma parseObject_loop_0: "parseObject_loop 0 text initial s = OutOfFuel"
  by (simp add: parseObject_loop_def)

lemma parseObject_loop_Suc:
  "parseObject_loop (Suc n) text initial s =
     parseObject_loop_body (parseString n text) (parseUnquotedString n text) (parseValue n text) (parseObject_loop n text) text initial s"
  by (simp add: parseValue_def parseObject_def parseObject_loop_def parseArray_def parseArray_loop_def parseString_def parseString_loop_def parseConcatenatedString_def parseConcatenatedString_loop_def parseUnquotedString_def)

lemma parseArray_0: "parseArray 0 text s = OutOfFuel"
  by (simp add: parseArray_def)

lemma parseArray_Suc:
  "parseArray (Suc n) text s =
     parseArray_body (parseArray_loop n text) text s"
  by (simp add: parseValue_def parseObject_def parseObject_loop_def parseArray_def parseArray_loop_def parseString_def parseString_loop_def parseConcatenatedString_def parseConcatenatedString_loop_def parseUnquotedString_def)

lemma parseArray_loop_0: "parseArray_loop 0 text initial s = OutOfFuel"
  by (simp add: parseArray_loop_def)

lemma parseArray_loop_Suc:
  "parseArray_loop (Suc n) text initial s =
     parseArray_loop_body (parseValue n text) (parseArray_loop n text) text initial s"
  by (simp add: parseValue_def parseObject_def parseObject_loop_def parseArray_def parseArray_loop_def parseString_def parseString_loop_def parseConcatenatedString_def parseConcatenatedString_loop_def parseUnquotedString_def)

lemma parseString_0: "parseString 0 text stopAtDelimiter s = OutOfFuel"
  by (simp add: parseString_def)

lemma parseString_Suc:
  "parseString (Suc n) text stopAtDelimiter s =
     parseString_body (parseString_loop n text) text stopAtDelimiter s"
  by (simp add: parseValue_def parseObject_def parseObject_loop_def parseArray_def parseArray_loop_def parseString_def parseString_loop_def parseConcatenatedString_def parseConcatenatedString_loop_def parseUnquotedString_def)

lemma parseString_loop_0: "parseString_loop 0 text stopAtDelimiter skipEscapeChars isEndQuote iBefore oBefore str s = OutOfFuel"
  by (simp add: parseString_loop_def)

lemma parseString_loop_Suc:
  "parseString_loop (Suc n) text stopAtDelimiter skipEscapeChars isEndQuote iBefore oBefore str s =
     parseString_loop_body (parseString n text) (parseConcatenatedString n text) (parseString_loop n text) text stopAtDelimiter skipEscapeChars isEndQuote iBefore oBefore str s"
  by (simp add: parseValue_def parseObject_def parseObject_loop_def parseArray_def parseArray_loop_def parseString_def parseString_loop_def parseConcatenatedString_def parseConcatenatedString_loop_def parseUnquotedString_def)

lemma parseConcatenatedString_0: "parseConcatenatedString 0 text s = OutOfFuel"
  by (simp add: parseConcatenatedString_def)

lemma parseConcatenatedString_Suc:
  "parseConcatenatedString (Suc n) text s =
     parseConcatenatedString_body (parseConcatenatedString_loop n text) text s"
  by (simp add: parseValue_def parseObject_def parseObject_loop_def parseArray_def parseArray_loop_def parseString_def parseString_loop_def parseConcatenatedString_def parseConcatenatedString_loop_def parseUnquotedString_def)

lemma parseConcatenatedString_loop_0: "parseConcatenatedString_loop 0 text processed s = OutOfFuel"
  by (simp add: parseConcatenatedString_loop_def)

lemma parseConcatenatedString_loop_Suc:
  "parseConcatenatedString_loop (Suc n) text processed s =
     parseConcatenatedString_loop_body (parseString n text) (parseConcatenatedString_loop n text) text processed s"
  by (simp add: parseValue_def parseObject_def parseObject_loop_def parseArray_def parseArray_loop_def parseString_def parseString_loop_def parseConcatenatedString_def parseConcatenatedString_loop_def parseUnquotedString_def)

lemma parseUnquotedString_0: "parseUnquotedString 0 text s = OutOfFuel"
  by (simp add: parseUnquotedString_def)

lemma parseUnquotedString_Suc:
  "parseUnquotedString (Suc n) text s =
     parseUnquotedString_body (parseValue n text) text s"
  by (simp add: parseValue_def parseObject_def parseObject_loop_def parseArray_def parseArray_loop_def parseString_def parseString_loop_def parseConcatenatedString_def parseConcatenatedString_loop_def parseUnquotedString_def)

section \<open>Running the recognizers on a given text\<close>

text \<open>The recursion equations once more, in a form that rewrites a recognizer whose fuel
  is a numeral; the rules that follow them evaluate \<open>jsonrepair\<close> on a given text by
  rewriting.\<close>

lemma parseValue_unfold:
  "parseValue n text s =
     (if n = 0 then OutOfFuel else parseValue_body (parseObject (n - 1) text) (parseArray (n - 1) text) (parseString (n - 1) text) (parseUnquotedString (n - 1) text) text s)"
  by (cases n) (simp_all add: parseValue_0 parseValue_Suc)

lemma parseObject_unfold:
  "parseObject n text s =
     (if n = 0 then OutOfFuel else parseObject_body (parseObject_loop (n - 1) text) text s)"
  by (cases n) (simp_all add: parseObject_0 parseObject_Suc)

lemma parseObject_loop_unfold:
  "parseObject_loop n text initial s =
     (if n = 0 then OutOfFuel else parseObject_loop_body (parseString (n - 1) text) (parseUnquotedString (n - 1) text) (parseValue (n - 1) text) (parseObject_loop (n - 1) text) text initial s)"
  by (cases n) (simp_all add: parseObject_loop_0 parseObject_loop_Suc)

lemma parseArray_unfold:
  "parseArray n text s =
     (if n = 0 then OutOfFuel else parseArray_body (parseArray_loop (n - 1) text) text s)"
  by (cases n) (simp_all add: parseArray_0 parseArray_Suc)

lemma parseArray_loop_unfold:
  "parseArray_loop n text initial s =
     (if n = 0 then OutOfFuel else parseArray_loop_body (parseValue (n - 1) text) (parseArray_loop (n - 1) text) text initial s)"
  by (cases n) (simp_all add: parseArray_loop_0 parseArray_loop_Suc)

lemma parseString_unfold:
  "parseString n text stopAtDelimiter s =
     (if n = 0 then OutOfFuel else parseString_body (parseString_loop (n - 1) text) text stopAtDelimiter s)"
  by (cases n) (simp_all add: parseString_0 parseString_Suc)

lemma parseString_loop_unfold:
  "parseString_loop n text stopAtDelimiter skipEscapeChars isEndQuote iBefore oBefore str s =
     (if n = 0 then OutOfFuel else parseString_loop_body (parseString (n - 1) text) (parseConcatenatedString (n - 1) text) (parseString_loop (n - 1) text) text stopAtDelimiter skipEscapeChars isEndQuote iBefore oBefore str s)"
  by (cases n) (simp_all add: parseString_loop_0 parseString_loop_Suc)

lemma parseConcatenatedString_unfold:
  "parseConcatenatedString n text s =
     (if n = 0 then OutOfFuel else parseConcatenatedString_body (parseConcatenatedString_loop (n - 1) text) text s)"
  by (cases n) (simp_all add: parseConcatenatedString_0 parseConcatenatedString_Suc)

lemma parseConcatenatedString_loop_unfold:
  "parseConcatenatedString_loop n text processed s =
     (if n = 0 then OutOfFuel else parseConcatenatedString_loop_body (parseString (n - 1) text) (parseConcatenatedString_loop (n - 1) text) text processed s)"
  by (cases n) (simp_all add: parseConcatenatedString_loop_0 parseConcatenatedString_loop_Suc)

lemma parseUnquotedString_unfold:
  "parseUnquotedString n text s =
     (if n = 0 then OutOfFuel else parseUnquotedString_body (parseValue (n - 1) text) text s)"
  by (cases n) (simp_all add: parseUnquotedString_0 parseUnquotedString_Suc)

lemma parseNewlineDelimitedJSON_loop_unfold:
  "parseNewlineDelimitedJSON_loop n text initial s =
     (if n = 0 then OutOfFuel
      else
        (let s1 =
               (if \<not> initial then
                  (let comma = parseCharacter text codeComma s
                   in if \<not> fst comma then
                        (snd comma)\<lparr>out := insertBeforeLastWhitespace (out (snd comma)) [codeComma]\<rparr>
                      else snd comma)
                else s)
         in case parseValue (n - 1) text s1 of
              OutOfFuel \<Rightarrow> OutOfFuel
            | Throw e \<Rightarrow> Throw e
            | Ok (processedValue, s2) \<Rightarrow>
                if processedValue then parseNewlineDelimitedJSON_loop (n - 1) text False s2
                else Ok s2))"
  by (cases n)
     (simp_all only: parseNewlineDelimitedJSON_loop.simps diff_Suc_1 nat.distinct if_False
        if_True simp_thms)

lemmas recognizer_unfolds =
  parseValue_unfold parseObject_unfold parseObject_loop_unfold parseArray_unfold
  parseArray_loop_unfold parseString_unfold parseString_loop_unfold
  parseConcatenatedString_unfold parseConcatenatedString_loop_unfold parseUnquotedString_unfold
  parseNewlineDelimitedJSON_loop_unfold

lemmas recognizer_bodies =
  parseValue_body_def parseObject_body_def parseObject_loop_body_def parseArray_body_def
  parseArray_loop_body_def parseString_body_def parseString_loop_body_def
  parseConcatenatedString_body_def parseConcatenatedString_loop_body_def
  parseUnquotedString_body_def

lemmas classifier_defs =
  isWhitespace_def isSpecialWhitespace_def isDoubleQuoteLike_def isSingleQuoteLike_def
  isDoubleQuote_def isSingleQuote_def isQuote_def isDelimiter_def isDelimiterExceptSlash_def
  isDigit_def isHex_def isControlCharacter_def isValidStringCharacter_def isWordCharacter_def
  isStartOfValue_def isFunctionName_def

lemmas helper_defs =
  js_def charCodeAt_def atIndex_def slice_def insertBeforeLastWhitespace_def
  stripLastOccurrence_def removeAtIndex_def endsWithCommaOrNewline_def controlCharacters_def
  escapeCharacters_def hexDigit_def unicodeEscape_def JSON_stringify_def isTrimmed_def trim_def
  parseWhitespace_loop.simps parseWhitespace_def parseWhitespaceAndSkipComments_def
  atEndOfBlockComment_def parseComment_block.simps parseComment_line.simps parseComment_def
  parseCharacter_def skipCharacter_def skipEscapeCharacter_def skipEllipsis_def
  atEndOfNumber_def repairNumberEndingWithNumericSymbol_def parseNumber_digits.simps
  hasInvalidLeadingZero_def parseNumber_end_def parseNumber_exponent_def
  parseNumber_fraction_def parseNumber_def parseKeyword_def orElse_def parseKeywords_def
  delimiterBefore_def noBackslashBefore_def parseUnquotedString_scan.simps parseString_next_def
  endQuoteFor_def parseNewlineDelimitedJSON_def jsonrepair_loop.simps jsonrepair_def

lemma parseUnquotedString_trim_unfold:
  "parseUnquotedString_trim text k =
     (if k = 0 then 0
      else if atIndex isWhitespace text (k - 1) then parseUnquotedString_trim text (k - 1)
      else k)"
  by (cases k) simp_all

lemma prevNonWhitespaceIndex_unfold:
  "prevNonWhitespaceIndex text k =
     (if k = 0 then 0
      else if atIndex isWhitespace text k then prevNonWhitespaceIndex text (k - 1)
      else k)"
  by (cases k) simp_all

lemma parseString_hex_unfold:
  "parseString_hex text i j left =
     (if left = 0 then j
      else if atIndex isHex text (i + j) then parseString_hex text i (j + 1) (left - 1)
      else j)"
  by (cases left) simp_all

lemmas run = recognizer_unfolds recognizer_bodies classifier_defs helper_defs Let_def
  parseUnquotedString_trim_unfold prevNonWhitespaceIndex_unfold parseString_hex_unfold

section \<open>Reading the text at the cursor\<close>

text \<open>The text from the cursor on, \<open>drop i text\<close>, decides what the recognizers see.\<close>

lemma drop_Cons_length: "drop i text = c # r \<Longrightarrow> i < length text"
  by (cases "i < length text") simp_all

lemma drop_Cons_nth: "drop i text = c # r \<Longrightarrow> text ! i = c"
  by (metis drop_Cons_length hd_drop_conv_nth list.sel(1))

lemma drop_Cons_Suc: "drop i text = c # r \<Longrightarrow> drop (Suc i) text = r"
  by (metis drop_Suc list.sel(3) tl_drop)

lemma drop_append_drop: "drop i text = xs @ r \<Longrightarrow> drop (i + length xs) text = r"
  by (metis add.commute append_eq_conv_conj drop_drop)

lemma charCodeAt_Cons: "drop i text = c # r \<Longrightarrow> charCodeAt text i = Some c"
  by (simp add: charCodeAt_def drop_Cons_length drop_Cons_nth)

lemma charCodeAt_Nil: "drop i text = [] \<Longrightarrow> charCodeAt text i = None"
  by (simp add: charCodeAt_def)

lemma atIndex_Cons: "drop i text = c # r \<Longrightarrow> atIndex p text i = p c"
  by (simp add: atIndex_def charCodeAt_Cons)

lemma atIndex_Nil: "drop i text = [] \<Longrightarrow> atIndex p text i = False"
  by (simp add: atIndex_def charCodeAt_Nil)

lemma slice_append: "drop i text = xs @ r \<Longrightarrow> slice text i (i + length xs) = xs"
  by (simp add: slice_def)

lemma parseWhitespace_loop_stop:
  "\<not> atIndex isWhitespace text i \<Longrightarrow> \<not> atIndex isSpecialWhitespace text i \<Longrightarrow>
   parseWhitespace_loop text i acc = (i, acc)"
  by (subst parseWhitespace_loop.simps) simp

lemma parseWhitespace_loop_run:
  "list_all isWhitespace ws \<Longrightarrow> drop i text = ws @ r \<Longrightarrow>
   \<not> atIndex isWhitespace text (i + length ws) \<Longrightarrow>
   \<not> atIndex isSpecialWhitespace text (i + length ws) \<Longrightarrow>
   parseWhitespace_loop text i acc = (i + length ws, acc @ ws)"
proof (induction ws arbitrary: i acc)
  case Nil
  then show ?case by (simp add: parseWhitespace_loop_stop)
next
  case (Cons w ws)
  from Cons.prems(2) have d: "drop i text = w # (ws @ r)" by simp
  have w: "atIndex isWhitespace text i" using Cons.prems(1) by (simp add: atIndex_Cons [OF d])
  have "parseWhitespace_loop text (Suc i) (acc @ [w]) = (Suc i + length ws, (acc @ [w]) @ ws)"
    using Cons.prems by (intro Cons.IH) (simp_all add: drop_Cons_Suc [OF d])
  then show ?case
    using w by (subst parseWhitespace_loop.simps) (simp add: drop_Cons_nth [OF d])
qed

lemma skip_whitespace_run:
  assumes "list_all isWhitespace ws" "drop i text = ws @ r"
    "\<not> atIndex isWhitespace text (i + length ws)"
    "\<not> atIndex isSpecialWhitespace text (i + length ws)"
  shows "parseWhitespaceAndSkipComments text \<lparr>cursor = i, out = b\<rparr> =
           (ws \<noteq> [], \<lparr>cursor = i + length ws, out = b @ ws\<rparr>)"
  using parseWhitespace_loop_run [OF assms, of "[]"]
  by (cases ws) (simp_all add: parseWhitespaceAndSkipComments_def parseWhitespace_def)


lemma parseWhitespace_loop_all:
  "list_all (\<lambda>c. isWhitespace c \<or> isSpecialWhitespace c) (drop i tx) \<Longrightarrow> i \<le> length tx \<Longrightarrow>
   fst (parseWhitespace_loop tx i acc) = length tx"
proof (induction tx i acc rule: parseWhitespace_loop.induct)
  case (1 tx i whitespace)
  show ?case
  proof (cases "i < length tx")
    case False
    then have "i = length tx" using 1(4) by simp
    then show ?thesis
      by (subst parseWhitespace_loop.simps) (simp add: atIndex_def charCodeAt_def)
  next
    case True
    then obtain c r where d: "drop i tx = c # r"
      by (metis Cons_nth_drop_Suc)
    have tl: "list_all (\<lambda>c. isWhitespace c \<or> isSpecialWhitespace c) (drop (i + 1) tx)"
      using 1(3) d by (simp add: drop_Cons_Suc [OF d])
    have c: "isWhitespace c \<or> isSpecialWhitespace c" using 1(3) d by simp
    show ?thesis
    proof (cases "isWhitespace c")
      case True
      then show ?thesis
        using 1(1) tl \<open>i < length tx\<close>
        by (subst parseWhitespace_loop.simps) (simp add: atIndex_Cons [OF d])
    next
      case False
      then show ?thesis
        using 1(2) tl c \<open>i < length tx\<close>
        by (subst parseWhitespace_loop.simps) (simp add: atIndex_Cons [OF d])
    qed
  qed
qed

lemma skip_whitespace_all:
  assumes "list_all (\<lambda>c. isWhitespace c \<or> isSpecialWhitespace c) text"
  shows "cursor (snd (parseWhitespaceAndSkipComments text \<lparr>cursor = 0, out = []\<rparr>)) = length text"
  using parseWhitespace_loop_all [of 0 "text" "[]"] assms
  by (cases "parseWhitespace_loop text 0 []")
     (simp add: parseWhitespaceAndSkipComments_def parseWhitespace_def)

lemma headOf_simps [simp]: "headOf [] = None" "headOf (c # r) = Some c"
  by (simp_all add: headOf_def)

lemma headIs_simps [simp]: "headIs p [] = False" "headIs p (c # r) = p c"
  by (simp_all add: headIs_def)

lemma charCodeAt_headOf: "charCodeAt text i = headOf (drop i text)"
proof (cases "i < length text")
  case True
  then show ?thesis
    by (simp add: charCodeAt_def headOf_def Cons_nth_drop_Suc [symmetric])
next
  case False
  then show ?thesis by (simp add: charCodeAt_def)
qed

lemma atIndex_headIs: "atIndex p text i = headIs p (drop i text)"
  by (cases "drop i text") (simp_all add: atIndex_def charCodeAt_headOf)

lemma atEndOfNumber_drop:
  "atEndOfNumber text i = (drop i text = [] \<or> headIs isDelimiter (drop i text) \<or> headIs isWhitespace (drop i text))"
  by (simp add: atEndOfNumber_def atIndex_headIs)

lemma drop_add_append: "drop i text = xs @ r \<Longrightarrow> drop (i + length xs) text = r"
  by (rule drop_append_drop)

lemma digit_facts:
  "isDigit d \<Longrightarrow> \<not> isDelimiter d \<and> \<not> isWhitespace d \<and> d \<noteq> codeMinus \<and> d \<noteq> codeDot \<and>
     d \<noteq> codeLowercaseE \<and> d \<noteq> codeUppercaseE \<and> d \<noteq> codePlus"
  by (auto simp: classifier_defs)

text \<open>At the end of the text no recognizer finds anything, and none moves the cursor.\<close>

lemma skip_whitespace_at_end:
  "length text \<le> cursor s \<Longrightarrow> parseWhitespaceAndSkipComments text s = (False, s)"
  by (simp add: parseWhitespaceAndSkipComments_def parseWhitespace_def
      parseWhitespace_loop_stop atIndex_def charCodeAt_def)

lemma parseObject_at_end:
  "length text \<le> cursor s \<Longrightarrow> parseObject (Suc n) text s = Ok (False, s)"
  by (simp add: parseObject_Suc parseObject_body_def charCodeAt_def)

lemma parseArray_at_end:
  "length text \<le> cursor s \<Longrightarrow> parseArray (Suc n) text s = Ok (False, s)"
  by (simp add: parseArray_Suc parseArray_body_def charCodeAt_def)

lemma parseString_at_end:
  "length text \<le> cursor s \<Longrightarrow> parseString (Suc n) text stop s = Ok (False, s)"
  by (simp add: parseString_Suc parseString_body_def charCodeAt_def atIndex_def)

lemma parseNumber_digits_stop:
  "\<not> atIndex isDigit text i \<Longrightarrow> parseNumber_digits text i = i"
  by (subst parseNumber_digits.simps) simp

lemma parseNumber_at_end:
  "length text \<le> cursor s \<Longrightarrow> parseNumber text s = (False, s)"
  by (simp add: parseNumber_def parseNumber_fraction_def parseNumber_exponent_def
      parseNumber_end_def parseNumber_digits_stop atEndOfNumber_def charCodeAt_def atIndex_def)

lemma parseKeywords_at_end:
  "length text \<le> cursor s \<Longrightarrow> parseKeywords text s = (False, s)"
  by (simp add: parseKeywords_def parseKeyword_def orElse_def slice_def js_def)

lemma parseUnquotedString_scan_stop:
  "length text \<le> i \<Longrightarrow> parseUnquotedString_scan text i = i"
  by (subst parseUnquotedString_scan.simps) simp

lemma parseUnquotedString_at_end:
  "length text \<le> cursor s \<Longrightarrow> parseUnquotedString (Suc n) text s = Ok (False, s)"
  by (simp add: parseUnquotedString_Suc parseUnquotedString_body_def
      parseUnquotedString_scan_stop)

lemma parseValue_at_end:
  assumes "length text \<le> cursor s"
  shows "parseValue (Suc (Suc n)) text s = Ok (False, s)"
  using assms
  by (simp add: parseValue_Suc parseValue_body_def skip_whitespace_at_end parseObject_at_end
      parseArray_at_end parseString_at_end parseNumber_at_end parseKeywords_at_end
      parseUnquotedString_at_end orElse_def)

section \<open>Numbers\<close>

text \<open>What \<open>parseNumber\<close> can return.\<close>

lemma parseNumber_digits_mono: "i \<le> parseNumber_digits tx i"
proof (induction tx i rule: parseNumber_digits.induct)
  case (1 tx i)
  show ?case
  proof (cases "atIndex isDigit tx i")
    case True
    then show ?thesis using 1 by (subst parseNumber_digits.simps) simp
  next
    case False
    then show ?thesis by (subst parseNumber_digits.simps) simp
  qed
qed

lemma last_slice:
  "a \<le> i \<Longrightarrow> charCodeAt text i = Some c \<Longrightarrow> last (slice text a (Suc i)) = c"
proof -
  assume a: "a \<le> i" and c: "charCodeAt text i = Some c"
  then have i: "i < length text" and n: "text ! i = c"
    by (auto simp: charCodeAt_def split: if_splits)
  have "slice text a (Suc i) = take (Suc (i - a)) (drop a text)"
    using a by (simp add: slice_def Suc_diff_le)
  also have "\<dots> = take (i - a) (drop a text) @ [drop a text ! (i - a)]"
    using a i by (simp add: take_Suc_conv_app_nth)
  finally show ?thesis using a i n by simp
qed

text \<open>The outcome seen from a later point of \<open>parseNumber\<close>: the state still has the
  output of the start, and its cursor has not gone back.\<close>

lemma parseNumber_end_outcome:
  assumes "start \<le> cursor s"
  shows "numberOutcome text (s\<lparr>cursor := start\<rparr>) (parseNumber_end text start s)"
  using assms
  by (auto simp: numberOutcome_def parseNumber_end_def Let_def)

lemma parseNumber_exponent_outcome:
  assumes "start \<le> cursor s"
  shows "numberOutcome text (s\<lparr>cursor := start\<rparr>) (parseNumber_exponent text start s)"
proof -
  have m: "cursor s + k \<le> parseNumber_digits text (cursor s + k)" for k
    by (rule parseNumber_digits_mono)
  have e: "numberOutcome text (s\<lparr>cursor := start\<rparr>)
        (parseNumber_end text start (s\<lparr>cursor := parseNumber_digits text (cursor s + k)\<rparr>))" for k
    using parseNumber_end_outcome [of start "s\<lparr>cursor := parseNumber_digits text (cursor s + k)\<rparr>" "text"]
      m [of k] assms by simp
  have r: "numberOutcome text (s\<lparr>cursor := start\<rparr>)
        (True, repairNumberEndingWithNumericSymbol text start (s\<lparr>cursor := Suc i\<rparr>))"
    if "atEndOfNumber text (Suc i)" "start \<le> i" "charCodeAt text i = Some c"
       "c \<in> {codeMinus, codeDot, codeLowercaseE, codeUppercaseE, codePlus}" for i c
    using that last_slice [of start i "text" c]
    by (simp add: numberOutcome_def repairNumberEndingWithNumericSymbol_def Let_def)
  show ?thesis
    unfolding parseNumber_exponent_def Let_def
    using e [of 1] e [of 2] r [of "cursor s"] r [of "Suc (cursor s)"] assms
      parseNumber_end_outcome [OF assms, of "text"]
    by (auto simp: numberOutcome_def split: if_splits)
qed


lemma repair_outcome:
  assumes "atEndOfNumber text (Suc i)" "start \<le> i" "charCodeAt text i = Some c"
    "c \<in> {codeMinus, codeDot, codeLowercaseE, codeUppercaseE, codePlus}"
  shows "numberOutcome text (s\<lparr>cursor := start\<rparr>)
        (True, repairNumberEndingWithNumericSymbol text start (s\<lparr>cursor := Suc i\<rparr>))"
  using assms last_slice [of start i "text" c]
  by (simp add: numberOutcome_def repairNumberEndingWithNumericSymbol_def Let_def)

lemma parseNumber_fraction_outcome:
  assumes "start \<le> cursor s"
  shows "numberOutcome text (s\<lparr>cursor := start\<rparr>) (parseNumber_fraction text start s)"
proof -
  define d where "d = parseNumber_digits text (cursor s)"
  have d: "start \<le> d"
    using parseNumber_digits_mono [of "cursor s" "text"] assms by (simp add: d_def)
  have m: "start \<le> parseNumber_digits text (Suc d)"
    using parseNumber_digits_mono [of "Suc d" "text"] d by simp
  have x: "numberOutcome text (s\<lparr>cursor := start\<rparr>) (parseNumber_exponent text start (s\<lparr>cursor := k\<rparr>))"
    if "start \<le> k" for k
    using parseNumber_exponent_outcome [of start "s\<lparr>cursor := k\<rparr>" "text"] that by simp
  show ?thesis
    unfolding parseNumber_fraction_def Let_def d_def [symmetric]
    using x [OF d] x [OF m] repair_outcome [of "text" d start codeDot s] d
    by (auto simp: numberOutcome_def split: if_splits)
qed

lemma parseNumber_outcome: "numberOutcome text s (parseNumber text s)"
proof -
  have f: "numberOutcome text s (parseNumber_fraction text (cursor s) (s\<lparr>cursor := k\<rparr>))"
    if "cursor s \<le> k" for k
    using parseNumber_fraction_outcome [of "cursor s" "s\<lparr>cursor := k\<rparr>" "text"] that by simp
  show ?thesis
    unfolding parseNumber_def Let_def
    using f [of "cursor s"] f [of "Suc (cursor s)"]
      repair_outcome [of "text" "cursor s" "cursor s" codeMinus s]
    by (auto simp: numberOutcome_def split: if_splits)
qed

text \<open>Digits in a row.\<close>

lemma parseNumber_digits_run:
  "list_all isDigit ds \<Longrightarrow> drop i text = ds @ r \<Longrightarrow> \<not> atIndex isDigit text (i + length ds) \<Longrightarrow>
   parseNumber_digits text i = i + length ds"
proof (induction ds arbitrary: i)
  case Nil
  then show ?case by (simp add: parseNumber_digits_stop)
next
  case (Cons d ds)
  from Cons.prems(2) have d: "drop i text = d # (ds @ r)" by simp
  have "parseNumber_digits text (Suc i) = Suc i + length ds"
    using Cons.prems by (intro Cons.IH) (simp_all add: drop_Cons_Suc [OF d])
  then show ?case
    using Cons.prems(1) by (subst parseNumber_digits.simps) (simp add: atIndex_Cons [OF d])
qed

text \<open>The sign and the digits before the fraction.\<close>

lemma parseNumber_sign:
  assumes "drop (cursor s) text = sg @ d # r" "sg = [] \<or> sg = [codeMinus]" "isDigit d"
  shows "parseNumber text s =
           parseNumber_fraction text (cursor s) (s\<lparr>cursor := cursor s + length sg\<rparr>)"
proof (cases "sg = []")
  case True
  then show ?thesis
    using assms digit_facts [of d] by (simp add: parseNumber_def charCodeAt_headOf)
next
  case False
  then have sg: "sg = [codeMinus]" using assms(2) by simp
  then have "drop (Suc (cursor s)) text = d # r"
    using assms(1) drop_Cons_Suc by simp
  then show ?thesis
    using assms sg digit_facts [of d] drop_Cons_length [of "Suc (cursor s)" "text" d r]
    by (simp add: parseNumber_def charCodeAt_headOf atEndOfNumber_drop atIndex_headIs Let_def)
qed


lemmas reads = charCodeAt_headOf atIndex_headIs

lemma atEndOfNumber_Nil: "drop i text = [] \<Longrightarrow> atEndOfNumber text i"
  by (simp add: atEndOfNumber_def)

lemma atEndOfNumber_Cons:
  "drop i text = c # r \<Longrightarrow> atEndOfNumber text i = (isDelimiter c \<or> isWhitespace c)"
  using drop_Cons_length [of i "text" c r] by (auto simp: atEndOfNumber_def reads)

lemma slice_drop: "drop i text = xs @ r \<Longrightarrow> slice text i (i + length xs) = xs"
  by (simp add: slice_def)

text \<open>The digits of the integer part, then no fraction, a fraction, or a dot at the end
  of the number.\<close>

lemma parseNumber_fraction_none:
  assumes "drop j text = ds @ r" "list_all isDigit ds" "\<not> headIs isDigit r"
    "headOf r \<noteq> Some codeDot"
  shows "parseNumber_fraction text st (s\<lparr>cursor := j\<rparr>) =
           parseNumber_exponent text st (s\<lparr>cursor := j + length ds\<rparr>)"
proof -
  have r: "drop (j + length ds) text = r"
    using assms(1) by (rule drop_append_drop)
  have "parseNumber_digits text j = j + length ds"
    using assms r by (intro parseNumber_digits_run [where r = r]) (simp_all add: reads)
  then show ?thesis
    using assms(4) r by (simp add: parseNumber_fraction_def Let_def reads)
qed

lemma parseNumber_fraction_some:
  assumes "drop j text = ds @ codeDot # fs @ r" "list_all isDigit ds" "list_all isDigit fs"
    "fs \<noteq> []" "\<not> headIs isDigit r"
  shows "parseNumber_fraction text st (s\<lparr>cursor := j\<rparr>) =
           parseNumber_exponent text st (s\<lparr>cursor := j + length ds + 1 + length fs\<rparr>)"
proof -
  obtain f fs' where fs: "fs = f # fs'" using assms(4) by (cases fs) auto
  have f: "isDigit f" using assms(3) fs by simp
  have d0: "drop (j + length ds) text = codeDot # fs @ r"
    using assms(1) by (rule drop_append_drop)
  have d1: "drop (Suc (j + length ds)) text = fs @ r"
    using d0 by (rule drop_Cons_Suc)
  have d2: "drop (Suc (j + length ds) + length fs) text = r"
    using d1 by (rule drop_append_drop)
  have n0: "parseNumber_digits text j = j + length ds"
    using assms d0 by (intro parseNumber_digits_run [where r = "codeDot # fs @ r"])
      (simp_all add: reads isDigit_def)
  have n1: "parseNumber_digits text (Suc (j + length ds)) = Suc (j + length ds) + length fs"
    using assms d1 d2 by (intro parseNumber_digits_run [where r = r]) (simp_all add: reads)
  have e: "\<not> atEndOfNumber text (Suc (j + length ds))"
    using d1 fs digit_facts [OF f] by (simp add: atEndOfNumber_Cons)
  show ?thesis
    using n0 n1 d0 d1 e fs f
    by (simp add: parseNumber_fraction_def Let_def reads)
qed

lemma parseNumber_fraction_truncated:
  assumes "drop j text = ds @ codeDot # r" "list_all isDigit ds"
    "atEndOfNumber text (j + length ds + 1)"
  shows "parseNumber_fraction text st (s\<lparr>cursor := j\<rparr>) =
           (True, repairNumberEndingWithNumericSymbol text st (s\<lparr>cursor := j + length ds + 1\<rparr>))"
proof -
  have d0: "drop (j + length ds) text = codeDot # r"
    using assms(1) by (rule drop_append_drop)
  have n0: "parseNumber_digits text j = j + length ds"
    using assms d0 by (intro parseNumber_digits_run [where r = "codeDot # r"])
      (simp_all add: reads isDigit_def)
  show ?thesis
    using n0 d0 assms(3) by (simp add: parseNumber_fraction_def Let_def reads)
qed

text \<open>No exponent, an exponent, or an exponent cut off.\<close>

lemma parseNumber_exponent_none:
  assumes "headOf (drop (cursor s) text) \<noteq> Some codeLowercaseE"
    "headOf (drop (cursor s) text) \<noteq> Some codeUppercaseE"
  shows "parseNumber_exponent text st s = parseNumber_end text st s"
  using assms by (simp add: parseNumber_exponent_def reads)

lemma parseNumber_exponent_some:
  assumes "drop j text = e # sg @ es @ r" "e = codeLowercaseE \<or> e = codeUppercaseE"
    "sg = [] \<or> sg = [codePlus] \<or> sg = [codeMinus]" "list_all isDigit es" "es \<noteq> []"
    "\<not> headIs isDigit r"
  shows "parseNumber_exponent text st (s\<lparr>cursor := j\<rparr>) =
           parseNumber_end text st (s\<lparr>cursor := j + 1 + length sg + length es\<rparr>)"
proof -
  obtain d es' where es: "es = d # es'" using assms(5) by (cases es) auto
  have d: "isDigit d" using assms(4) es by simp
  have d1: "drop (Suc j) text = sg @ es @ r"
    using assms(1) by (rule drop_Cons_Suc)
  have d2: "drop (Suc j + length sg) text = es @ r"
    using d1 by (rule drop_append_drop)
  have d3: "drop (Suc j + length sg + length es) text = r"
    using d2 by (rule drop_append_drop)
  have n: "parseNumber_digits text (Suc j + length sg) = Suc j + length sg + length es"
    using assms d2 d3 by (intro parseNumber_digits_run [where r = r]) (simp_all add: reads)
  have e: "\<not> atEndOfNumber text (Suc j + length sg)"
    using d2 es digit_facts [OF d] by (simp add: atEndOfNumber_Cons)
  have h: "headOf (drop (Suc j) text) = (if sg = [] then Some d else Some (hd sg))"
    using d1 es assms(3) by auto
  show ?thesis
    using assms(1,2,3) n e h d2 es d digit_facts [OF d]
    by (auto simp: parseNumber_exponent_def Let_def reads)
qed

lemma parseNumber_exponent_truncated:
  assumes "drop j text = e # sg @ r" "e = codeLowercaseE \<or> e = codeUppercaseE"
    "sg = [] \<or> sg = [codePlus] \<or> sg = [codeMinus]"
    "sg = [] \<Longrightarrow> headOf r \<noteq> Some codePlus \<and> headOf r \<noteq> Some codeMinus"
    "atEndOfNumber text (j + 1 + length sg)"
  shows "parseNumber_exponent text st (s\<lparr>cursor := j\<rparr>) =
           (True, repairNumberEndingWithNumericSymbol text st (s\<lparr>cursor := j + 1 + length sg\<rparr>))"
proof -
  have d1: "drop (Suc j) text = sg @ r"
    using assms(1) by (rule drop_Cons_Suc)
  show ?thesis
    using assms d1
    by (auto simp: parseNumber_exponent_def Let_def reads)
qed

lemma parseNumber_end_whole:
  assumes "atEndOfNumber text j" "st < j"
  shows "parseNumber_end text st (s\<lparr>cursor := j\<rparr>) =
           (True, s\<lparr>cursor := j, out := out s @
              (if hasInvalidLeadingZero (slice text st j)
               then [codeDoubleQuote] @ slice text st j @ [codeDoubleQuote]
               else slice text st j)\<rparr>)"
  using assms by (simp add: parseNumber_end_def Let_def)

text \<open>A number cut off after its minus, after its dot, or in its exponent.\<close>

lemma parseNumber_truncated_minus:
  assumes "drop (cursor s) text = codeMinus # r" "atEndOfNumber text (cursor s + 1)"
  shows "parseNumber text s = (True, s\<lparr>cursor := cursor s + 1, out := out s @ [codeMinus, codeZero]\<rparr>)"
  using assms slice_drop [of "cursor s" "text" "[codeMinus]" r]
  by (simp add: parseNumber_def Let_def reads repairNumberEndingWithNumericSymbol_def)

lemma parseNumber_truncated_dot:
  assumes "drop (cursor s) text = sg @ ds @ codeDot # r" "sg = [] \<or> sg = [codeMinus]" "ds \<noteq> []"
    "list_all isDigit ds" "atEndOfNumber text (cursor s + length (sg @ ds) + 1)"
  shows "parseNumber text s =
           (True, s\<lparr>cursor := cursor s + length (sg @ ds) + 1,
                    out := out s @ sg @ ds @ [codeDot, codeZero]\<rparr>)"
proof -
  obtain d ds' where ds: "ds = d # ds'" using assms(3) by (cases ds) auto
  have d: "isDigit d" using assms(4) ds by simp
  have 1: "parseNumber text s =
      parseNumber_fraction text (cursor s) (s\<lparr>cursor := cursor s + length sg\<rparr>)"
    using assms(1,2) d ds by (intro parseNumber_sign [where d = d and r = "ds' @ codeDot # r"]) simp_all
  have d1: "drop (cursor s + length sg) text = ds @ codeDot # r"
    using assms(1) by (rule drop_append_drop)
  have 2: "parseNumber_fraction text (cursor s) (s\<lparr>cursor := cursor s + length sg\<rparr>) =
      (True, repairNumberEndingWithNumericSymbol text (cursor s)
         (s\<lparr>cursor := cursor s + length sg + length ds + 1\<rparr>))"
    using parseNumber_fraction_truncated [OF d1 assms(4), of "cursor s" s] assms(5)
    by (simp add: add.assoc)
  have "slice text (cursor s) (cursor s + length (sg @ ds @ [codeDot])) = sg @ ds @ [codeDot]"
    using assms(1) by (intro slice_drop [where r = r]) simp
  then show ?thesis
    using 1 2 by (simp add: repairNumberEndingWithNumericSymbol_def add.assoc)
qed

lemma parseNumber_truncated_exponent:
  assumes "drop (cursor s) text = sg @ ds @ fr @ e # es @ r" "sg = [] \<or> sg = [codeMinus]"
    "ds \<noteq> []" "list_all isDigit ds"
    "fr = [] \<or> (\<exists>fs. fr = codeDot # fs \<and> fs \<noteq> [] \<and> list_all isDigit fs)"
    "e = codeLowercaseE \<or> e = codeUppercaseE" "es = [] \<or> es = [codePlus] \<or> es = [codeMinus]"
    "es \<noteq> [] \<or> charCodeAt text (cursor s + length (sg @ ds @ fr) + 1) \<noteq> Some codePlus"
    "atEndOfNumber text (cursor s + length (sg @ ds @ fr @ e # es))"
  shows "parseNumber text s =
           (True, s\<lparr>cursor := cursor s + length (sg @ ds @ fr @ e # es),
                    out := out s @ sg @ ds @ fr @ e # es @ [codeZero]\<rparr>)"
proof -
  obtain d ds' where ds: "ds = d # ds'" using assms(3) by (cases ds) auto
  have d: "isDigit d" using assms(4) ds by simp
  have e: "\<not> isDigit e" "e \<noteq> codeDot" using assms(6) by (auto simp: isDigit_def)
  have 1: "parseNumber text s =
      parseNumber_fraction text (cursor s) (s\<lparr>cursor := cursor s + length sg\<rparr>)"
    using assms(1,2) d ds
    by (intro parseNumber_sign [where d = d and r = "ds' @ fr @ e # es @ r"]) simp_all
  have d1: "drop (cursor s + length sg) text = ds @ fr @ e # es @ r"
    using assms(1) by (rule drop_append_drop)
  have 2: "parseNumber_fraction text (cursor s) (s\<lparr>cursor := cursor s + length sg\<rparr>) =
      parseNumber_exponent text (cursor s) (s\<lparr>cursor := cursor s + length sg + length ds + length fr\<rparr>)"
  proof (cases "fr = []")
    case True
    then show ?thesis
      using parseNumber_fraction_none [of "cursor s + length sg" "text" ds "e # es @ r" "cursor s" s]
        d1 assms(4) e by simp
  next
    case False
    then obtain fs where fs: "fr = codeDot # fs" "fs \<noteq> []" "list_all isDigit fs"
      using assms(5) by auto
    show ?thesis
      using parseNumber_fraction_some [of "cursor s + length sg" "text" ds fs "e # es @ r" "cursor s" s]
        d1 assms(4) fs e by (simp add: add.assoc)
  qed
  define j where "j = cursor s + length sg + length ds + length fr"
  have d2: "drop j text = e # es @ r"
    using assms(1) drop_append_drop [of "cursor s" "text" "sg @ ds @ fr" "e # es @ r"]
    by (simp add: j_def add.assoc)
  have d3: "drop (Suc j) text = es @ r"
    using d2 by (rule drop_Cons_Suc)
  have p: "es = [] \<Longrightarrow> headOf r \<noteq> Some codePlus \<and> headOf r \<noteq> Some codeMinus"
  proof -
    assume es: "es = []"
    then have "charCodeAt text (Suc j) \<noteq> Some codePlus"
      using assms(8) by (simp add: j_def add.assoc)
    moreover have "atEndOfNumber text (Suc j)"
      using assms(9) es by (simp add: j_def add.assoc)
    ultimately show ?thesis
      using d3 es by (cases r) (auto simp: reads atEndOfNumber_Cons classifier_defs)
  qed
  have 3: "parseNumber_exponent text (cursor s) (s\<lparr>cursor := j\<rparr>) =
      (True, repairNumberEndingWithNumericSymbol text (cursor s) (s\<lparr>cursor := j + 1 + length es\<rparr>))"
    using assms(6,7,9) p
    by (intro parseNumber_exponent_truncated [OF d2]) (simp_all add: j_def add.assoc)
  have "slice text (cursor s) (cursor s + length (sg @ ds @ fr @ e # es)) = sg @ ds @ fr @ e # es"
    using assms(1) by (intro slice_drop [where r = r]) simp
  then show ?thesis
    using 1 2 3 by (simp add: repairNumberEndingWithNumericSymbol_def j_def add.assoc)
qed

section \<open>The cursor between call and return\<close>

text \<open>The loops and the recognizers that take no fuel.\<close>

lemma parseWhitespace_loop_mono: "i \<le> fst (parseWhitespace_loop tx i w)"
proof (induction tx i w rule: parseWhitespace_loop.induct)
  case (1 tx i whitespace)
  show ?case
  proof (cases "atIndex isWhitespace tx i")
    case True
    then show ?thesis
      using 1(1) by (subst parseWhitespace_loop.simps) simp
  next
    case False
    note normal = this
    show ?thesis
    proof (cases "atIndex isSpecialWhitespace tx i")
      case True
      then show ?thesis
        using normal 1(2) by (subst parseWhitespace_loop.simps) simp
    next
      case False
      then show ?thesis
        using normal by (subst parseWhitespace_loop.simps) simp
    qed
  qed
qed

lemma parseWhitespace_loop_stops:
  "\<not> atIndex isWhitespace tx (fst (parseWhitespace_loop tx i w))"
proof (induction tx i w rule: parseWhitespace_loop.induct)
  case (1 tx i whitespace)
  show ?case
  proof (cases "atIndex isWhitespace tx i")
    case True
    then show ?thesis
      using 1(1) by (subst parseWhitespace_loop.simps) simp
  next
    case False
    note normal = this
    show ?thesis
    proof (cases "atIndex isSpecialWhitespace tx i")
      case True
      then show ?thesis
        using normal 1(2) by (subst parseWhitespace_loop.simps) simp
    next
      case False
      then show ?thesis
        using normal by (subst parseWhitespace_loop.simps) simp
    qed
  qed
qed

lemma skip_whitespace_cursor:
  "cursor (snd (parseWhitespaceAndSkipComments text s)) = fst (parseWhitespace_loop text (cursor s) [])"
  by (cases "parseWhitespace_loop text (cursor s) []")
     (simp add: parseWhitespaceAndSkipComments_def parseWhitespace_def)

lemma skip_whitespace_mono:
  "cursor s \<le> cursor (snd (parseWhitespaceAndSkipComments text s))"
  by (simp add: skip_whitespace_cursor parseWhitespace_loop_mono)

lemma skip_whitespace_stops:
  "\<not> atIndex isWhitespace text (cursor (snd (parseWhitespaceAndSkipComments text s)))"
  by (simp add: skip_whitespace_cursor parseWhitespace_loop_stops)

lemma skip_whitespace_start:
  "unquotedStart text (cursor (snd (parseWhitespaceAndSkipComments text s)))"
  by (simp add: unquotedStart_def skip_whitespace_stops)

lemma parseCharacter_cursor:
  "cursor s \<le> cursor (snd (parseCharacter text c s))"
  by (simp add: parseCharacter_def)

lemma skipCharacter_cursor:
  "cursor s \<le> cursor (snd (skipCharacter text c s))"
  by (simp add: skipCharacter_def)

lemma parseString_next_cursor:
  "cursor s \<le> cursor (parseString_next text esc s)"
  by (simp add: parseString_next_def skipEscapeCharacter_def skipCharacter_def)

lemma skipEllipsis_cursor:
  "cursor s \<le> cursor (snd (skipEllipsis text s))"
proof -
  let ?s1 = "snd (parseWhitespaceAndSkipComments text s)"
  have 1: "cursor s \<le> cursor ?s1" by (rule skip_whitespace_mono)
  have 2: "cursor ?s1 + 3 \<le> cursor (snd (parseWhitespaceAndSkipComments text (?s1\<lparr>cursor := cursor ?s1 + 3\<rparr>)))"
    using skip_whitespace_mono [of "?s1\<lparr>cursor := cursor ?s1 + 3\<rparr>" "text"] by simp
  show ?thesis
    using 1 2 by (simp add: skipEllipsis_def Let_def skipCharacter_def)
qed

lemma skipEllipsis_start:
  "unquotedStart text (cursor (snd (skipEllipsis text s)))"
proof -
  let ?s1 = "snd (parseWhitespaceAndSkipComments text s)"
  let ?s3 = "snd (parseWhitespaceAndSkipComments text (?s1\<lparr>cursor := cursor ?s1 + 3\<rparr>))"
  have 1: "\<not> atIndex isWhitespace text (cursor ?s1)" by (rule skip_whitespace_stops)
  have 3: "\<not> atIndex isWhitespace text (cursor ?s3)" by (rule skip_whitespace_stops)
  have c: "charCodeAt text k = Some codeComma \<Longrightarrow> \<not> atIndex isWhitespace text k" for k
    by (simp add: atIndex_def isWhitespace_def)
  show ?thesis
    using 1 3 c [of "cursor ?s3"]
    by (simp add: skipEllipsis_def Let_def skipCharacter_def unquotedStart_def)
qed

lemma parseNumber_cursor:
  "parseNumber text s = (p, s') \<Longrightarrow> cursor s \<le> cursor s'"
  using parseNumber_outcome [of "text" s] by (auto simp: numberOutcome_def split: if_splits)

lemma parseNumber_False:
  "parseNumber text s = (False, s') \<Longrightarrow> s' = s"
  using parseNumber_outcome [of "text" s] by (simp add: numberOutcome_def)

lemma parseKeyword_cursor:
  "cursor s \<le> cursor (snd (parseKeyword text name v s))"
  by (simp add: parseKeyword_def)

lemma parseKeyword_False:
  "\<not> fst (parseKeyword text name v s) \<Longrightarrow> snd (parseKeyword text name v s) = s"
  by (simp add: parseKeyword_def split: if_splits)

lemma orElse_cursor:
  assumes "k \<le> cursor (snd r)" "\<And>s. cursor s \<le> cursor (snd (f s))"
  shows "k \<le> cursor (snd (orElse r f))"
  using assms(1) assms(2) [of "snd r"] by (simp add: orElse_def)

lemma orElse_False:
  assumes "\<not> fst (orElse r f)"
  shows "\<not> fst r \<and> \<not> fst (f (snd r)) \<and> snd (orElse r f) = snd (f (snd r))"
  using assms by (simp add: orElse_def split: if_splits)

lemma parseKeywords_cursor_snd: "cursor s \<le> cursor (snd (parseKeywords text s))"
  unfolding parseKeywords_def
  by (intro orElse_cursor parseKeyword_cursor)

lemma parseKeywords_cursor:
  "parseKeywords text s = (p, s') \<Longrightarrow> cursor s \<le> cursor s'"
  using parseKeywords_cursor_snd [of s "text"] by simp

lemma parseKeywords_False_snd:
  assumes "\<not> fst (parseKeywords text s)"
  shows "snd (parseKeywords text s) = s"
proof -
  note a = assms [unfolded parseKeywords_def]
  note 5 = orElse_False [OF a]
  note 4 = orElse_False [OF conjunct1 [OF 5]]
  note 3 = orElse_False [OF conjunct1 [OF 4]]
  note 2 = orElse_False [OF conjunct1 [OF 3]]
  note 1 = orElse_False [OF conjunct1 [OF 2]]
  have k1: "snd (parseKeyword text (js ''true'') (js ''true'') s) = s"
    using 1 by (intro parseKeyword_False) simp
  show ?thesis
    unfolding parseKeywords_def
    using 1 2 3 4 5 k1 parseKeyword_False by (metis (no_types, lifting))
qed

lemma parseKeywords_False:
  "parseKeywords text s = (False, s') \<Longrightarrow> s' = s"
  using parseKeywords_False_snd [of "text" s] by simp

lemma parseUnquotedString_scan_mono: "i \<le> parseUnquotedString_scan tx i"
proof (induction tx i rule: parseUnquotedString_scan.induct)
  case (1 tx i)
  show ?case
  proof (cases "i < length tx \<and> \<not> atIndex isDelimiterExceptSlash tx i \<and> \<not> atIndex isQuote tx i")
    case True
    then show ?thesis using 1 by (subst parseUnquotedString_scan.simps) simp
  next
    case False
    then show ?thesis by (subst parseUnquotedString_scan.simps) auto
  qed
qed

lemma parseUnquotedString_trim_start:
  "start < k \<Longrightarrow> unquotedStart text start \<Longrightarrow> start \<le> parseUnquotedString_trim text k"
proof (induction k)
  case 0
  then show ?case by simp
next
  case (Suc k)
  show ?case
  proof (cases "atIndex isWhitespace text k")
    case False
    then show ?thesis using Suc.prems by simp
  next
    case True
    show ?thesis
    proof (cases "start < k")
      case True
      then show ?thesis using Suc \<open>atIndex isWhitespace text k\<close> by simp
    next
      case False
      then have k: "k = start" using Suc.prems by simp
      then show ?thesis
        using True Suc.prems(2) by (cases start) (auto simp: unquotedStart_def)
    qed
  qed
qed

text \<open>The recognizers with fuel: each part of \<open>cursorsAdvance\<close> for \<open>Suc n\<close> from all of
  them for \<open>n\<close>.\<close>

lemma parseObject_False: "parseObject n text s = Ok (False, s') \<Longrightarrow> s' = s"
  by (cases n)
     (auto simp: parseObject_0 parseObject_Suc parseObject_body_def Let_def
        split: if_splits result.splits)

lemma parseArray_False: "parseArray n text s = Ok (False, s') \<Longrightarrow> s' = s"
  by (cases n)
     (auto simp: parseArray_0 parseArray_Suc parseArray_body_def Let_def
        split: if_splits result.splits)

lemma token_cursor:
  assumes "orElse (parseNumber text s) (parseKeywords text) = (p, s')"
  shows "cursor s \<le> cursor s' \<and> (p \<or> s' = s)"
proof (cases "parseNumber text s")
  case (Pair pn sn)
  show ?thesis
  proof (cases pn)
    case True
    then show ?thesis
      using assms Pair parseNumber_cursor [OF Pair] by (simp add: orElse_def)
  next
    case False
    then have sn: "sn = s" using Pair parseNumber_False by simp
    then have k: "parseKeywords text s = (p, s')"
      using assms Pair False by (simp add: orElse_def)
    show ?thesis
      using parseKeywords_cursor [OF k] parseKeywords_False [of "text" s s'] k by (cases p) simp_all
  qed
qed

lemma parseString_start:
  assumes "parseString (Suc n) text b s = Ok (False, s')" "unquotedStart text (cursor s)"
    "\<And>b e q iB oB str s p s'.
       atIndex isQuote text iB \<Longrightarrow> parseString_loop n text b e q iB oB str s = Ok (p, s') \<Longrightarrow> p"
  shows "unquotedStart text (cursor s')"
proof (cases "charCodeAt text (cursor s) = Some codeBackslash")
  case True
  then have w: "\<not> atIndex isWhitespace text (cursor s)"
    by (simp add: atIndex_def isWhitespace_def)
  have "cursor s' = cursor s + 1"
    using assms(1) True
    by (auto simp: parseString_Suc parseString_body_def Let_def split: if_splits dest: assms(3))
  then show ?thesis
    using w by (simp add: unquotedStart_def)
next
  case False
  have "s' = s"
    using assms(1) False
    by (auto simp: parseString_Suc parseString_body_def Let_def split: if_splits dest: assms(3))
  then show ?thesis using assms(2) by simp
qed

lemma cursorsAdvanceD:
  assumes "cursorsAdvance n text"
  shows "parseValue n text s = Ok (p, s') \<Longrightarrow> cursor s \<le> cursor s'"
    and "parseObject n text s = Ok (p, s') \<Longrightarrow> cursor s \<le> cursor s'"
    and "parseObject_loop n text b s = Ok s' \<Longrightarrow> cursor s \<le> cursor s'"
    and "parseArray n text s = Ok (p, s') \<Longrightarrow> cursor s \<le> cursor s'"
    and "parseArray_loop n text b s = Ok s' \<Longrightarrow> cursor s \<le> cursor s'"
    and "parseString n text b s = Ok (p, s') \<Longrightarrow> cursor s \<le> cursor s'"
    and "iB \<le> cursor s \<Longrightarrow> parseString_loop n text b e q iB oB str s = Ok (p, s') \<Longrightarrow> iB \<le> cursor s'"
    and "parseConcatenatedString n text s = Ok (p, s') \<Longrightarrow> cursor s \<le> cursor s'"
    and "parseConcatenatedString_loop n text b s = Ok (p, s') \<Longrightarrow> cursor s \<le> cursor s'"
    and "unquotedStart text (cursor s) \<Longrightarrow> parseUnquotedString n text s = Ok (p, s') \<Longrightarrow>
         cursor s \<le> cursor s'"
    and "atIndex isQuote text (cursor s) \<Longrightarrow> parseString n text b s = Ok (p, s') \<Longrightarrow> p"
    and "atIndex isQuote text iB \<Longrightarrow> parseString_loop n text b e q iB oB str s = Ok (p, s') \<Longrightarrow> p"
    and "unquotedStart text (cursor s) \<Longrightarrow> parseString n text b s = Ok (False, s') \<Longrightarrow>
         unquotedStart text (cursor s')"
  subgoal by (rule assms [unfolded cursorsAdvance_def, THEN conjunct1, rule_format])
  subgoal by (rule assms [unfolded cursorsAdvance_def, THEN conjunct2, THEN conjunct1, rule_format])
  subgoal by (rule assms [unfolded cursorsAdvance_def, THEN conjunct2, THEN conjunct2, THEN conjunct1, rule_format])
  subgoal by (rule assms [unfolded cursorsAdvance_def, THEN conjunct2, THEN conjunct2, THEN conjunct2, THEN conjunct1, rule_format])
  subgoal by (rule assms [unfolded cursorsAdvance_def, THEN conjunct2, THEN conjunct2, THEN conjunct2, THEN conjunct2, THEN conjunct1, rule_format])
  subgoal by (rule assms [unfolded cursorsAdvance_def, THEN conjunct2, THEN conjunct2, THEN conjunct2, THEN conjunct2, THEN conjunct2, THEN conjunct1, rule_format])
  subgoal by (rule assms [unfolded cursorsAdvance_def, THEN conjunct2, THEN conjunct2, THEN conjunct2, THEN conjunct2, THEN conjunct2, THEN conjunct2, THEN conjunct1, rule_format])
  subgoal by (rule assms [unfolded cursorsAdvance_def, THEN conjunct2, THEN conjunct2, THEN conjunct2, THEN conjunct2, THEN conjunct2, THEN conjunct2, THEN conjunct2, THEN conjunct1, rule_format])
  subgoal by (rule assms [unfolded cursorsAdvance_def, THEN conjunct2, THEN conjunct2, THEN conjunct2, THEN conjunct2, THEN conjunct2, THEN conjunct2, THEN conjunct2, THEN conjunct2, THEN conjunct1, rule_format])
  subgoal by (rule assms [unfolded cursorsAdvance_def, THEN conjunct2, THEN conjunct2, THEN conjunct2, THEN conjunct2, THEN conjunct2, THEN conjunct2, THEN conjunct2, THEN conjunct2, THEN conjunct2, THEN conjunct1, rule_format])
  subgoal by (rule assms [unfolded cursorsAdvance_def, THEN conjunct2, THEN conjunct2, THEN conjunct2, THEN conjunct2, THEN conjunct2, THEN conjunct2, THEN conjunct2, THEN conjunct2, THEN conjunct2, THEN conjunct2, THEN conjunct1, rule_format])
  subgoal by (rule assms [unfolded cursorsAdvance_def, THEN conjunct2, THEN conjunct2, THEN conjunct2, THEN conjunct2, THEN conjunct2, THEN conjunct2, THEN conjunct2, THEN conjunct2, THEN conjunct2, THEN conjunct2, THEN conjunct2, THEN conjunct1, rule_format])
  subgoal by (rule assms [unfolded cursorsAdvance_def, THEN conjunct2, THEN conjunct2, THEN conjunct2, THEN conjunct2, THEN conjunct2, THEN conjunct2, THEN conjunct2, THEN conjunct2, THEN conjunct2, THEN conjunct2, THEN conjunct2, THEN conjunct2, rule_format])
  done

lemma Ok_caseE:
  assumes "(case r of OutOfFuel \<Rightarrow> OutOfFuel | Throw e \<Rightarrow> Throw e | Ok x \<Rightarrow> f x) = Ok y"
  obtains x where "r = Ok x" "f x = Ok y"
  using assms by (cases r) auto

lemma skip_whitespace_le:
  "k \<le> cursor s \<Longrightarrow> k \<le> cursor (snd (parseWhitespaceAndSkipComments text s))"
  using skip_whitespace_mono [of s "text"] by simp

lemma parseCharacter_le: "k \<le> cursor s \<Longrightarrow> k \<le> cursor (snd (parseCharacter text c s))"
  using parseCharacter_cursor [of s "text" c] by simp

lemma skipCharacter_le: "k \<le> cursor s \<Longrightarrow> k \<le> cursor (snd (skipCharacter text c s))"
  using skipCharacter_cursor [of s "text" c] by simp

lemma skipEllipsis_le: "k \<le> cursor s \<Longrightarrow> k \<le> cursor (snd (skipEllipsis text s))"
  using skipEllipsis_cursor [of s "text"] by simp

lemma parseString_next_le: "k \<le> cursor s \<Longrightarrow> k \<le> cursor (parseString_next text esc s)"
  using parseString_next_cursor [of s "text" esc] by simp

lemmas advance = skip_whitespace_le parseCharacter_le skipCharacter_le skipEllipsis_le
  parseString_next_le le_SucI trans_le_add1

lemma cursorsAdvance_rules:
  assumes "cursorsAdvance n text"
  shows "parseValue n text x = Ok (p1, y) \<Longrightarrow> (\<forall>k. k \<le> cursor x \<longrightarrow> k \<le> cursor y)"
    and "parseObject n text x = Ok (p1, y) \<Longrightarrow>
         (\<forall>k. k \<le> cursor x \<longrightarrow> k \<le> cursor y) \<and> (p1 \<or> y = x)"
    and "parseObject_loop n text b x = Ok y \<Longrightarrow> (\<forall>k. k \<le> cursor x \<longrightarrow> k \<le> cursor y)"
    and "parseArray n text x = Ok (p1, y) \<Longrightarrow>
         (\<forall>k. k \<le> cursor x \<longrightarrow> k \<le> cursor y) \<and> (p1 \<or> y = x)"
    and "parseArray_loop n text b x = Ok y \<Longrightarrow> (\<forall>k. k \<le> cursor x \<longrightarrow> k \<le> cursor y)"
    and "parseString n text b x = Ok (p1, y) \<Longrightarrow>
         (\<forall>k. k \<le> cursor x \<longrightarrow> k \<le> cursor y) \<and>
         (p1 \<or> \<not> unquotedStart text (cursor x) \<or> unquotedStart text (cursor y)) \<and>
         (p1 \<or> \<not> atIndex isQuote text (cursor x))"
    and "parseString_loop n text b e q iB oB str x = Ok (p1, y) \<Longrightarrow>
         (iB \<le> cursor x \<longrightarrow> iB \<le> cursor y) \<and> (p1 \<or> \<not> atIndex isQuote text iB)"
    and "parseConcatenatedString n text x = Ok (p1, y) \<Longrightarrow>
         (\<forall>k. k \<le> cursor x \<longrightarrow> k \<le> cursor y)"
    and "parseConcatenatedString_loop n text b x = Ok (p1, y) \<Longrightarrow>
         (\<forall>k. k \<le> cursor x \<longrightarrow> k \<le> cursor y)"
    and "parseUnquotedString n text x = Ok (p1, y) \<Longrightarrow>
         unquotedStart text (cursor x) \<longrightarrow> (\<forall>k. k \<le> cursor x \<longrightarrow> k \<le> cursor y)"
proof -
  note ih = cursorsAdvanceD [OF assms]
  show "parseValue n text x = Ok (p1, y) \<Longrightarrow> (\<forall>k. k \<le> cursor x \<longrightarrow> k \<le> cursor y)"
    using ih(1) [of x p1 y] by auto
  show "parseObject n text x = Ok (p1, y) \<Longrightarrow>
         (\<forall>k. k \<le> cursor x \<longrightarrow> k \<le> cursor y) \<and> (p1 \<or> y = x)"
    using ih(2) [of x p1 y] parseObject_False [of n "text" x y] by (cases p1) auto
  show "parseObject_loop n text b x = Ok y \<Longrightarrow> (\<forall>k. k \<le> cursor x \<longrightarrow> k \<le> cursor y)"
    using ih(3) [of b x y] by auto
  show "parseArray n text x = Ok (p1, y) \<Longrightarrow>
         (\<forall>k. k \<le> cursor x \<longrightarrow> k \<le> cursor y) \<and> (p1 \<or> y = x)"
    using ih(4) [of x p1 y] parseArray_False [of n "text" x y] by (cases p1) auto
  show "parseArray_loop n text b x = Ok y \<Longrightarrow> (\<forall>k. k \<le> cursor x \<longrightarrow> k \<le> cursor y)"
    using ih(5) [of b x y] by auto
  show "parseString n text b x = Ok (p1, y) \<Longrightarrow>
         (\<forall>k. k \<le> cursor x \<longrightarrow> k \<le> cursor y) \<and>
         (p1 \<or> \<not> unquotedStart text (cursor x) \<or> unquotedStart text (cursor y)) \<and>
         (p1 \<or> \<not> atIndex isQuote text (cursor x))"
    using ih(6) [of b x p1 y] ih(13) [of x b y] ih(11) [of x b p1 y] by (cases p1) auto
  show "parseString_loop n text b e q iB oB str x = Ok (p1, y) \<Longrightarrow>
         (iB \<le> cursor x \<longrightarrow> iB \<le> cursor y) \<and> (p1 \<or> \<not> atIndex isQuote text iB)"
    using ih(7) [of iB x b e q oB str p1 y] ih(12) [of iB b e q oB str x p1 y] by auto
  show "parseConcatenatedString n text x = Ok (p1, y) \<Longrightarrow>
         (\<forall>k. k \<le> cursor x \<longrightarrow> k \<le> cursor y)"
    using ih(8) [of x p1 y] by auto
  show "parseConcatenatedString_loop n text b x = Ok (p1, y) \<Longrightarrow>
         (\<forall>k. k \<le> cursor x \<longrightarrow> k \<le> cursor y)"
    using ih(9) [of b x p1 y] by auto
  show "parseUnquotedString n text x = Ok (p1, y) \<Longrightarrow>
         unquotedStart text (cursor x) \<longrightarrow> (\<forall>k. k \<le> cursor x \<longrightarrow> k \<le> cursor y)"
    using ih(10) [of x p1 y] by auto
qed

lemma parseValue_advances:
  assumes "cursorsAdvance n text" "parseValue (Suc n) text s = Ok (p, s')"
  shows "cursor s \<le> cursor s'"
proof -
  note r = cursorsAdvance_rules [OF assms(1)]
  have T: "orElse (parseNumber text x) (parseKeywords text) = (p1, y) \<Longrightarrow>
      (\<forall>k. k \<le> cursor x \<longrightarrow> k \<le> cursor y) \<and> (p1 \<or> y = x)" for x p1 y
    using token_cursor [of "text" x p1 y] by auto
  show ?thesis
    using assms(2) skip_whitespace_start [of "text" s]
    by (auto simp: parseValue_Suc parseValue_body_def Let_def advance
        split: prod.splits if_splits elim!: Ok_caseE dest!: r(2,4,6,10) T)
qed

lemma parseObject_advances:
  assumes "cursorsAdvance n text" "parseObject (Suc n) text s = Ok (p, s')"
  shows "cursor s \<le> cursor s'"
proof -
  note r = cursorsAdvance_rules [OF assms(1)]
  show ?thesis
    using assms(2)
    by (auto simp: parseObject_Suc parseObject_body_def Let_def advance
        split: prod.splits if_splits elim!: Ok_caseE dest!: r(3))
qed

lemma parseArray_advances:
  assumes "cursorsAdvance n text" "parseArray (Suc n) text s = Ok (p, s')"
  shows "cursor s \<le> cursor s'"
proof -
  note r = cursorsAdvance_rules [OF assms(1)]
  show ?thesis
    using assms(2)
    by (auto simp: parseArray_Suc parseArray_body_def Let_def advance
        split: prod.splits if_splits elim!: Ok_caseE dest!: r(5))
qed

lemma parseArray_loop_advances:
  assumes "cursorsAdvance n text" "parseArray_loop (Suc n) text b s = Ok s'"
  shows "cursor s \<le> cursor s'"
proof -
  note r = cursorsAdvance_rules [OF assms(1)]
  show ?thesis
    using assms(2)
    by (auto simp: parseArray_loop_Suc parseArray_loop_body_def Let_def advance
        split: prod.splits if_splits elim!: Ok_caseE dest!: r(1,5))
qed

lemma parseConcatenatedString_advances:
  assumes "cursorsAdvance n text" "parseConcatenatedString (Suc n) text s = Ok (p, s')"
  shows "cursor s \<le> cursor s'"
proof -
  note r = cursorsAdvance_rules [OF assms(1)]
  show ?thesis
    using assms(2)
    by (auto simp: parseConcatenatedString_Suc parseConcatenatedString_body_def advance
        dest!: r(9))
qed

lemma parseConcatenatedString_loop_advances:
  assumes "cursorsAdvance n text" "parseConcatenatedString_loop (Suc n) text b s = Ok (p, s')"
  shows "cursor s \<le> cursor s'"
proof -
  note r = cursorsAdvance_rules [OF assms(1)]
  have w: "k \<le> cursor s \<Longrightarrow>
      k \<le> cursor (snd (parseWhitespaceAndSkipComments text (s\<lparr>cursor := Suc (cursor s)\<rparr>)))" for k
    by (rule skip_whitespace_le) simp
  show ?thesis
    using assms(2)
    by (auto simp: parseConcatenatedString_loop_Suc parseConcatenatedString_loop_body_def
        Let_def advance w
        split: prod.splits if_splits elim!: Ok_caseE dest!: r(6,9))
qed


lemma parseObject_loop_advances:
  assumes "cursorsAdvance n text" "parseObject_loop (Suc n) text b s = Ok s'"
  shows "cursor s \<le> cursor s'"
proof -
  note r = cursorsAdvance_rules [OF assms(1)]
  have e: "unquotedStart text (cursor (snd (skipEllipsis text x)))" for x
    by (rule skipEllipsis_start)
  show ?thesis
    using assms(2)
    by (auto simp: parseObject_loop_Suc parseObject_loop_body_def Let_def advance e
        split: prod.splits if_splits elim!: Ok_caseE dest!: r(1,3,6,10))
qed

lemma parseString_advances:
  assumes "cursorsAdvance n text" "parseString (Suc n) text b s = Ok (p, s')"
  shows "cursor s \<le> cursor s'"
proof -
  note r = cursorsAdvance_rules [OF assms(1)]
  show ?thesis
    using assms(2)
    by (auto simp: parseString_Suc parseString_body_def Let_def advance
        split: prod.splits if_splits dest!: r(7))
qed

lemma parseString_quoted:
  assumes "cursorsAdvance n text" "parseString (Suc n) text b s = Ok (p, s')"
    "atIndex isQuote text (cursor s)"
  shows "p"
proof -
  note r = cursorsAdvance_rules [OF assms(1)]
  have "charCodeAt text (cursor s) \<noteq> Some codeBackslash"
    using assms(3) by (auto simp: atIndex_def classifier_defs)
  then show ?thesis
    using assms(2,3)
    by (auto simp: parseString_Suc parseString_body_def Let_def
        split: prod.splits if_splits dest!: r(7))
qed

lemma parseString_unquotedStart:
  assumes "cursorsAdvance n text" "parseString (Suc n) text b s = Ok (False, s')"
    "unquotedStart text (cursor s)"
  shows "unquotedStart text (cursor s')"
  using assms(2,3)
  by (rule parseString_start) (rule cursorsAdvanceD(12) [OF assms(1)])

lemma parseUnquotedString_advances:
  assumes "cursorsAdvance n text" "parseUnquotedString (Suc n) text s = Ok (p, s')"
    "unquotedStart text (cursor s)"
  shows "cursor s \<le> cursor s'"
proof -
  note r = cursorsAdvance_rules [OF assms(1)]
  have sc: "k \<le> i \<Longrightarrow> k \<le> parseUnquotedString_scan text i" for k i
    using parseUnquotedString_scan_mono [of i "text"] by simp
  have tr: "cursor s < k \<Longrightarrow> cursor s \<le> parseUnquotedString_trim text k" for k
    using parseUnquotedString_trim_start [of "cursor s" k "text"] assms(3) by simp
  show ?thesis
    using assms(2)
    by (auto simp: parseUnquotedString_Suc parseUnquotedString_body_def Let_def advance sc tr
        split: prod.splits if_splits elim!: Ok_caseE dest!: r(1))
qed


lemma parseString_loop_advances:
  assumes "cursorsAdvance n text"
    "parseString_loop (Suc n) text b e q iB oB str s = Ok (p, s')" "iB \<le> cursor s"
  shows "iB \<le> cursor s'"
proof -
  note r = cursorsAdvance_rules [OF assms(1)]
  show ?thesis
    using assms(2,3)
    by (auto simp: parseString_loop_Suc parseString_loop_body_def Let_def advance
        split: prod.splits if_splits elim!: Ok_caseE dest!: r(6,7,8))
qed

lemma parseString_loop_quoted:
  assumes "cursorsAdvance n text"
    "parseString_loop (Suc n) text b e q iB oB str s = Ok (p, s')" "atIndex isQuote text iB"
  shows "p"
proof -
  note r = cursorsAdvance_rules [OF assms(1)]
  show ?thesis
    using assms(2,3)
    by (auto simp: parseString_loop_Suc parseString_loop_body_def Let_def
        split: prod.splits if_splits elim!: Ok_caseE dest!: r(6,7))
qed

lemma cursorsAdvance_0: "cursorsAdvance 0 text"
  by (simp add: cursorsAdvance_def parseValue_0 parseObject_0 parseObject_loop_0 parseArray_0
      parseArray_loop_0 parseString_0 parseString_loop_0 parseConcatenatedString_0
      parseConcatenatedString_loop_0 parseUnquotedString_0)

lemma cursorsAdvance_Suc:
  assumes "cursorsAdvance n text"
  shows "cursorsAdvance (Suc n) text"
  unfolding cursorsAdvance_def
  using parseValue_advances [OF assms] parseObject_advances [OF assms]
    parseObject_loop_advances [OF assms] parseArray_advances [OF assms]
    parseArray_loop_advances [OF assms] parseString_advances [OF assms]
    parseString_loop_advances [OF assms] parseConcatenatedString_advances [OF assms]
    parseConcatenatedString_loop_advances [OF assms] parseUnquotedString_advances [OF assms]
    parseString_quoted [OF assms] parseString_loop_quoted [OF assms]
    parseString_unquotedStart [OF assms]
  by (intro conjI allI impI) blast+

lemma cursorsAdvance_all: "cursorsAdvance n text"
  by (induction n) (simp_all add: cursorsAdvance_0 cursorsAdvance_Suc)


lemma parseNewlineDelimitedJSON_loop_advances:
  "parseNewlineDelimitedJSON_loop n text b s = Ok s' \<Longrightarrow> cursor s \<le> cursor s'"
proof (induction n arbitrary: b s)
  case 0
  then show ?case by simp
next
  case (Suc n)
  have V: "parseValue n text x = Ok (p1, y) \<Longrightarrow> (\<forall>k. k \<le> cursor x \<longrightarrow> k \<le> cursor y)" for x p1 y
    by (rule cursorsAdvance_rules(1) [OF cursorsAdvance_all])
  have L: "parseNewlineDelimitedJSON_loop n text c x = Ok s' \<Longrightarrow>
      (\<forall>k. k \<le> cursor x \<longrightarrow> k \<le> cursor s')" for c x
    using Suc.IH [of c x] by auto
  show ?case
    using Suc.prems
    by (auto simp: Let_def advance split: prod.splits if_splits elim!: Ok_caseE dest!: V L)
qed

lemma jsonrepair_loop_advances: "cursor s \<le> cursor (jsonrepair_loop tx s)"
proof (induction tx s rule: jsonrepair_loop.induct)
  case (1 tx s)
  show ?case
  proof (cases "charCodeAt tx (cursor s) = Some codeClosingBrace \<or>
      charCodeAt tx (cursor s) = Some codeClosingBracket")
    case True
    have "cursor s \<le> cursor (snd (parseWhitespaceAndSkipComments tx (s\<lparr>cursor := cursor s + 1\<rparr>)))"
      by (rule skip_whitespace_le) simp
    then show ?thesis
      using 1 [OF True] True by (subst jsonrepair_loop.simps) simp
  next
    case False
    then show ?thesis by (subst jsonrepair_loop.simps) simp
  qed
qed

section \<open>Strings of JSON\<close>

lemma renderItems_simps [simp]:
  "renderItems [] = []" "renderItems (x # xs) = renderItem x @ renderItems xs"
  by (simp_all add: renderItems_def)

lemma valueEnd_facts:
  assumes "valueEnd r"
  shows "\<not> headIs isWhitespace r" "\<not> headIs isSpecialWhitespace r"
    "r = [] \<or> headIs isDelimiter r" "headOf r \<noteq> Some codePlus" "\<not> headIs isDigit r"
    "\<not> headIs isQuote r" "headOf r \<noteq> Some codeBackslash"
  using assms by (cases r; auto simp: valueEnd_def classifier_defs)+

lemma lineStart_facts:
  assumes "headIs lineStart r"
  shows "\<not> headIs isWhitespace r" "\<not> headIs isSpecialWhitespace r"
    "headIs isDelimiter r \<or> headIs isQuote r \<or> headIs isDigit r" "headOf r \<noteq> Some codePlus"
    "r \<noteq> []"
  using assms by (cases r; auto simp: lineStart_def classifier_defs)+

lemma follows_valueEnd: "valueEnd r \<Longrightarrow> follows w r"
  by (simp add: follows_def)

lemma follows_facts:
  assumes "follows w r"
  shows "\<not> headIs isWhitespace r" "\<not> headIs isSpecialWhitespace r"
    "r = [] \<or> headIs isDelimiter r \<or> headIs isQuote r \<or> headIs isDigit r"
    "headOf r \<noteq> Some codePlus" "w \<noteq> [] \<or> valueEnd r"
  using assms valueEnd_facts [of r] lineStart_facts [of r] by (auto simp: follows_def)

text \<open>One iteration of the loop of \<open>parseString\<close> for each item of a string in double
  quotes.\<close>

lemma parseString_loop_item:
  assumes "wfItem x" "drop i text = renderItem x @ r"
  shows "parseString_loop (Suc n) text False False isDoubleQuote iB oB str \<lparr>cursor = i, out = b\<rparr> =
         parseString_loop n text False False isDoubleQuote iB oB (str @ renderItem x)
           \<lparr>cursor = i + length (renderItem x), out = b\<rparr>"
proof (cases x)
  case (Plain c)
  then have d: "drop i text = c # r" using assms(2) by simp
  have c: "0x20 \<le> c" "c \<noteq> codeDoubleQuote" "c \<noteq> codeBackslash" using assms(1) Plain by simp_all
  have nc: "\<not> isControlCharacter c" using c(1) by (auto simp: isControlCharacter_def)
  show ?thesis
    using c nc drop_Cons_length [OF d] drop_Cons_nth [OF d] d Plain
    by (simp add: parseString_loop_Suc parseString_loop_body_def reads isDoubleQuote_def
        isValidStringCharacter_def parseString_next_def)
next
  case (Escape c)
  then have d: "drop i text = codeBackslash # c # r" using assms(2) by simp
  have d1: "drop (Suc i) text = c # r" using d by (rule drop_Cons_Suc)
  have e: "escapeCharacters c" using assms(1) Escape by (simp add: escapeCharacters_def)
  have sl: "slice text i (i + 2) = [codeBackslash, c]"
    using d by (simp add: slice_def)
  show ?thesis
    using e drop_Cons_length [OF d] d d1 sl Escape
    by (simp add: parseString_loop_Suc parseString_loop_body_def reads isDoubleQuote_def
        parseString_next_def)
next
  case (Unicode a b c d)
  then have d0: "drop i text = codeBackslash # 0x75 # a # b # c # d # r" using assms(2) by simp
  have d1: "drop (Suc i) text = 0x75 # a # b # c # d # r" using d0 by (rule drop_Cons_Suc)
  have d2: "drop (i + 2) text = a # b # c # d # r"
    using arg_cong [OF d0, of "drop 2"] by (simp add: add.commute)
  have d3: "drop (i + 3) text = b # c # d # r"
    using arg_cong [OF d0, of "drop 3"] by (simp add: add.commute)
  have d4: "drop (i + 4) text = c # d # r"
    using arg_cong [OF d0, of "drop 4"] by (simp add: add.commute)
  have d5: "drop (i + 5) text = d # r"
    using arg_cong [OF d0, of "drop 5"] by (simp add: add.commute)
  have h: "isHex a" "isHex b" "isHex c" "isHex d" using assms(1) Unicode by simp_all
  have hex: "parseString_hex text i 2 4 = 6"
    using h d2 d3 d4 d5
    by (simp add: parseString_hex_unfold [of "text" i 2] parseString_hex_unfold [of "text" i 3]
        parseString_hex_unfold [of "text" i 4] parseString_hex_unfold [of "text" i 5]
        parseString_hex_unfold [of "text" i 6] reads)
  have sl: "slice text i (i + 6) = [codeBackslash, 0x75, a, b, c, d]"
    using d0 by (simp add: slice_def)
  have six: "i + 6 = Suc (Suc (Suc (Suc (Suc (Suc i)))))" by simp
  show ?thesis
    using drop_Cons_length [OF d0] d0 d1 sl hex Unicode
    by (simp add: parseString_loop_Suc parseString_loop_body_def reads isDoubleQuote_def
        parseString_next_def escapeCharacters_def six)
qed

lemma parseString_loop_items:
  assumes "list_all wfItem xs" "drop i text = renderItems xs @ r"
  shows "parseString_loop (length xs + n) text False False isDoubleQuote iB oB str
           \<lparr>cursor = i, out = b\<rparr> =
         parseString_loop n text False False isDoubleQuote iB oB (str @ renderItems xs)
           \<lparr>cursor = i + length (renderItems xs), out = b\<rparr>"
  using assms
proof (induction xs arbitrary: i str)
  case Nil
  then show ?case by simp
next
  case (Cons x xs)
  have d: "drop i text = renderItem x @ (renderItems xs @ r)" using Cons.prems(2) by simp
  have d': "drop (i + length (renderItem x)) text = renderItems xs @ r"
    using d by (rule drop_append_drop)
  show ?case
    using parseString_loop_item [OF _ d, of "length xs + n" iB oB str b] Cons.prems(1)
      Cons.IH [OF _ d', of "str @ renderItem x"]
    by (simp add: add.assoc)
qed

lemma skip_whitespace_none:
  assumes "\<not> headIs isWhitespace (drop (cursor s) text)"
    "\<not> headIs isSpecialWhitespace (drop (cursor s) text)"
  shows "parseWhitespaceAndSkipComments text s = (False, s)"
  using assms
  by (simp add: parseWhitespaceAndSkipComments_def parseWhitespace_def
      parseWhitespace_loop_stop atIndex_headIs)

lemma skip_whitespace_to:
  assumes "list_all isWhitespace ws" "drop i text = ws @ r"
    "\<not> headIs isWhitespace r" "\<not> headIs isSpecialWhitespace r"
  shows "parseWhitespaceAndSkipComments text \<lparr>cursor = i, out = b\<rparr> =
           (ws \<noteq> [], \<lparr>cursor = i + length ws, out = b @ ws\<rparr>)"
  using assms drop_append_drop [OF assms(2)]
  by (intro skip_whitespace_run [where r = r]) (simp_all add: atIndex_headIs)

lemma parseConcatenatedString_none:
  assumes "\<not> headIs isWhitespace (drop (cursor s) text)"
    "\<not> headIs isSpecialWhitespace (drop (cursor s) text)"
    "headOf (drop (cursor s) text) \<noteq> Some codePlus"
  shows "parseConcatenatedString (Suc (Suc n)) text s = Ok (False, s)"
  using assms
  by (simp add: parseConcatenatedString_Suc parseConcatenatedString_body_def
      parseConcatenatedString_loop_Suc parseConcatenatedString_loop_body_def
      skip_whitespace_none charCodeAt_headOf)

lemma parseString_loop_end:
  assumes "drop i text = codeDoubleQuote # w @ r" "list_all isWhitespace w" "follows w r"
  shows "parseString_loop (Suc (Suc (Suc n))) text False False isDoubleQuote iB oB str
           \<lparr>cursor = i, out = b\<rparr> =
         Ok (True, \<lparr>cursor = i + 1 + length w, out = b @ str @ [codeDoubleQuote] @ w\<rparr>)"
proof -
  note v = follows_facts [OF assms(3)]
  have d1: "drop (Suc i) text = w @ r" using assms(1) by (rule drop_Cons_Suc)
  have d2: "drop (Suc i + length w) text = r" using d1 by (rule drop_append_drop)
  have ws: "parseWhitespaceAndSkipComments text \<lparr>cursor = Suc i, out = b @ str @ [codeDoubleQuote]\<rparr> =
      (w \<noteq> [], \<lparr>cursor = Suc i + length w, out = (b @ str @ [codeDoubleQuote]) @ w\<rparr>)"
    using assms(2) d1 v(1,2) by (rule skip_whitespace_to)
  have pc: "parseConcatenatedString (Suc (Suc n)) text
      \<lparr>cursor = Suc i + length w, out = (b @ str @ [codeDoubleQuote]) @ w\<rparr> =
      Ok (False, \<lparr>cursor = Suc i + length w, out = (b @ str @ [codeDoubleQuote]) @ w\<rparr>)"
    using v d2 by (intro parseConcatenatedString_none) simp_all
  have c: "length text \<le> Suc (i + length w) \<or> headIs isDelimiter r \<or> headIs isQuote r \<or>
      headIs isDigit r"
    using v(3) d2 by auto
  have "length text \<le> Suc (i + length w) \<or> atIndex isDelimiter text (Suc (i + length w)) \<or>
      atIndex isQuote text (Suc (i + length w)) \<or> atIndex isDigit text (Suc (i + length w))"
    using c d2 by (simp add: reads)
  then show ?thesis
    using drop_Cons_length [OF assms(1)] ws pc
    by (simp add: parseString_loop_Suc [of "Suc (Suc n)"] parseString_loop_body_def
        atIndex_Cons [OF assms(1)] isDoubleQuote_def Let_def)
qed

lemma parseString_whole:
  assumes "list_all wfItem xs" "drop i text = renderString xs @ w @ r"
    "list_all isWhitespace w" "follows w r"
  shows "parseString (length xs + 4 + n) text False \<lparr>cursor = i, out = b\<rparr> =
         Ok (True, \<lparr>cursor = i + length (renderString xs) + length w,
                    out = b @ renderString xs @ w\<rparr>)"
proof -
  have d0: "drop i text = codeDoubleQuote # renderItems xs @ codeDoubleQuote # w @ r"
    using assms(2) by (simp add: renderString_def)
  have d1: "drop (Suc i) text = renderItems xs @ (codeDoubleQuote # w @ r)"
    using d0 by (rule drop_Cons_Suc)
  have d2: "drop (Suc i + length (renderItems xs)) text = codeDoubleQuote # w @ r"
    using d1 by (rule drop_append_drop)
  have 1: "parseString (Suc m) text False \<lparr>cursor = i, out = b\<rparr> =
      parseString_loop m text False False isDoubleQuote i (length b)
        [codeDoubleQuote] \<lparr>cursor = Suc i, out = b\<rparr>" for m
    using d0 drop_Cons_nth [OF d0]
    by (simp add: parseString_Suc parseString_body_def reads Let_def isQuote_def
        isDoubleQuoteLike_def endQuoteFor_def isDoubleQuote_def)
  have 2: "parseString_loop (length xs + (3 + n)) text False False isDoubleQuote i (length b)
        [codeDoubleQuote] \<lparr>cursor = Suc i, out = b\<rparr> =
      parseString_loop (3 + n) text False False isDoubleQuote i (length b)
        ([codeDoubleQuote] @ renderItems xs) \<lparr>cursor = Suc i + length (renderItems xs), out = b\<rparr>"
    using assms(1) d1 by (rule parseString_loop_items)
  have 3: "parseString_loop (Suc (Suc (Suc n))) text False False isDoubleQuote i (length b)
        ([codeDoubleQuote] @ renderItems xs) \<lparr>cursor = Suc i + length (renderItems xs), out = b\<rparr> =
      Ok (True, \<lparr>cursor = Suc i + length (renderItems xs) + 1 + length w,
                 out = b @ ([codeDoubleQuote] @ renderItems xs) @ [codeDoubleQuote] @ w\<rparr>)"
    using d2 assms(3,4) by (rule parseString_loop_end)
  have e: "length xs + 4 + n = Suc (length xs + (3 + n))" "3 + n = Suc (Suc (Suc n))" by simp_all
  show ?thesis
    unfolding e(1) 1 2 unfolding e(2) 3 by (simp add: renderString_def)
qed

lemma lastIndexOf_none: "c \<notin> set w \<Longrightarrow> lastIndexOf w c = None"
  by (induction w) auto

lemma lastIndexOf_last: "c \<notin> set w \<Longrightarrow> lastIndexOf (a @ c # w) c = Some (length a)"
  by (induction a) (simp_all add: lastIndexOf_none)

lemma stripLastOccurrence_last:
  "c \<notin> set w \<Longrightarrow> stripLastOccurrence (a @ c # w) c True = a"
  by (simp add: stripLastOccurrence_def lastIndexOf_last)

lemma removeAtIndex_at: "removeAtIndex (a @ c # t) (length a) 1 = a @ t"
  by (simp add: removeAtIndex_def)

lemma whitespace_no_quote: "list_all isWhitespace w \<Longrightarrow> codeDoubleQuote \<notin> set w"
  by (auto simp: list_all_iff isWhitespace_def)

text \<open>At a plus sign \<open>parseConcatenatedString\<close> strips the closing quote of the string on the
  left with the whitespace around the plus sign, and tries a string.\<close>

lemma parseConcatenatedString_plus:
  assumes "drop j text = codePlus # w2 @ r" "list_all isWhitespace w1" "list_all isWhitespace w2"
    "\<not> headIs isWhitespace r" "\<not> headIs isSpecialWhitespace r"
  shows "parseConcatenatedString (Suc (Suc m)) text
           \<lparr>cursor = j, out = a @ codeDoubleQuote # w1\<rparr> =
         (case parseString m text False \<lparr>cursor = j + 1 + length w2, out = a\<rparr> of
            OutOfFuel \<Rightarrow> OutOfFuel
          | Throw e \<Rightarrow> Throw e
          | Ok (parsedStr, s3) \<Rightarrow>
              parseConcatenatedString_loop m text True
                (if parsedStr then s3\<lparr>out := removeAtIndex (out s3) (length a) 1\<rparr>
                 else s3\<lparr>out := insertBeforeLastWhitespace (out s3) [codeDoubleQuote]\<rparr>))"
proof -
  have d1: "drop (Suc j) text = w2 @ r" using assms(1) by (rule drop_Cons_Suc)
  have ws: "parseWhitespaceAndSkipComments text \<lparr>cursor = Suc j, out = a @ codeDoubleQuote # w1\<rparr> =
      (w2 \<noteq> [], \<lparr>cursor = Suc j + length w2, out = (a @ codeDoubleQuote # w1) @ w2\<rparr>)"
    using assms(3) d1 assms(4,5) by (rule skip_whitespace_to)
  have q: "codeDoubleQuote \<notin> set (w1 @ w2)"
    using assms(2,3) by (simp add: whitespace_no_quote)
  have st: "stripLastOccurrence (a @ codeDoubleQuote # w1 @ w2) codeDoubleQuote True = a"
    using q by (rule stripLastOccurrence_last)
  have n: "parseWhitespaceAndSkipComments text \<lparr>cursor = j, out = a @ codeDoubleQuote # w1\<rparr> =
      (False, \<lparr>cursor = j, out = a @ codeDoubleQuote # w1\<rparr>)"
    using assms(1) by (intro skip_whitespace_none) (simp_all add: classifier_defs)
  show ?thesis
    using assms(1) ws st n
    by (simp add: parseConcatenatedString_Suc parseConcatenatedString_body_def
        parseConcatenatedString_loop_Suc [of m] parseConcatenatedString_loop_body_def
        charCodeAt_headOf Let_def split: result.split prod.split)
qed

text \<open>The closing quote of a string that a plus sign follows.\<close>

lemma parseString_loop_end_plus:
  assumes "drop i text = codeDoubleQuote # w1 @ codePlus # r" "list_all isWhitespace w1"
  shows "parseString_loop (Suc m) text False False isDoubleQuote iB oB str
           \<lparr>cursor = i, out = b\<rparr> =
         (case parseConcatenatedString m text
                 \<lparr>cursor = i + 1 + length w1, out = b @ str @ codeDoubleQuote # w1\<rparr> of
            OutOfFuel \<Rightarrow> OutOfFuel
          | Throw e \<Rightarrow> Throw e
          | Ok (processed, s3) \<Rightarrow> Ok (True, s3))"
proof -
  have d1: "drop (Suc i) text = w1 @ codePlus # r" using assms(1) by (rule drop_Cons_Suc)
  have d2: "drop (Suc i + length w1) text = codePlus # r" using d1 by (rule drop_append_drop)
  have ws: "parseWhitespaceAndSkipComments text \<lparr>cursor = Suc i, out = b @ str @ [codeDoubleQuote]\<rparr> =
      (w1 \<noteq> [], \<lparr>cursor = Suc i + length w1, out = (b @ str @ [codeDoubleQuote]) @ w1\<rparr>)"
    using assms(2) d1 by (rule skip_whitespace_to) (simp_all add: classifier_defs)
  show ?thesis
    using drop_Cons_length [OF assms(1)] assms(1) ws d2
    by (simp add: parseString_loop_Suc [of m] parseString_loop_body_def reads
        isDoubleQuote_def Let_def isDelimiter_def)
qed

lemma parseConcatenatedString_loop_none:
  "headOf (drop (cursor s) text) \<noteq> Some codePlus \<Longrightarrow>
   parseConcatenatedString_loop (Suc n) text p s = Ok (p, s)"
  by (simp add: parseConcatenatedString_loop_Suc parseConcatenatedString_loop_body_def
      charCodeAt_headOf)

lemma parseString_none:
  "headOf (drop (cursor s) text) \<noteq> Some codeBackslash \<Longrightarrow>
   \<not> headIs isQuote (drop (cursor s) text) \<Longrightarrow>
   parseString (Suc n) text stop s = Ok (False, s)"
  by (simp add: parseString_Suc parseString_body_def reads Let_def)

lemma parseString_open:
  assumes "drop i text = codeDoubleQuote # r"
  shows "parseString (Suc m) text False \<lparr>cursor = i, out = b\<rparr> =
         parseString_loop m text False False isDoubleQuote i (length b)
           [codeDoubleQuote] \<lparr>cursor = Suc i, out = b\<rparr>"
  using assms drop_Cons_nth [OF assms]
  by (simp add: parseString_Suc parseString_body_def reads Let_def isQuote_def
      isDoubleQuoteLike_def endQuoteFor_def isDoubleQuote_def)

text \<open>A string, and what \<open>parseString\<close> does from its closing quote on if a plus sign
  follows.\<close>

lemma parseString_to_plus:
  assumes "list_all wfItem xs" "drop i text = renderString xs @ w1 @ codePlus # w2 @ r"
    "list_all isWhitespace w1" "list_all isWhitespace w2"
    "\<not> headIs isWhitespace r" "\<not> headIs isSpecialWhitespace r"
  shows "parseString (length xs + 4 + m) text False \<lparr>cursor = i, out = b\<rparr> =
         (case parseString m text False
                 \<lparr>cursor = i + length (renderString xs @ w1 @ codePlus # w2),
                    out = b @ codeDoubleQuote # renderItems xs\<rparr> of
            OutOfFuel \<Rightarrow> OutOfFuel
          | Throw e \<Rightarrow> Throw e
          | Ok (parsedStr, s3) \<Rightarrow>
              (case parseConcatenatedString_loop m text True
                      (if parsedStr
                       then s3\<lparr>out := removeAtIndex (out s3)
                                         (length (b @ codeDoubleQuote # renderItems xs)) 1\<rparr>
                       else s3\<lparr>out := insertBeforeLastWhitespace (out s3) [codeDoubleQuote]\<rparr>) of
                 OutOfFuel \<Rightarrow> OutOfFuel
               | Throw e \<Rightarrow> Throw e
               | Ok (processed, s4) \<Rightarrow> Ok (True, s4)))"
proof -
  have d0: "drop i text =
      codeDoubleQuote # renderItems xs @ codeDoubleQuote # w1 @ codePlus # w2 @ r"
    using assms(2) by (simp add: renderString_def)
  have d1: "drop (Suc i) text = renderItems xs @ (codeDoubleQuote # w1 @ codePlus # w2 @ r)"
    using d0 by (rule drop_Cons_Suc)
  have d2: "drop (Suc i + length (renderItems xs)) text = codeDoubleQuote # w1 @ codePlus # w2 @ r"
    using d1 by (rule drop_append_drop)
  have d3: "drop (Suc (Suc i + length (renderItems xs))) text = w1 @ codePlus # w2 @ r"
    using d2 by (rule drop_Cons_Suc)
  have d4: "drop (Suc (Suc i + length (renderItems xs)) + length w1) text = codePlus # w2 @ r"
    using d3 by (rule drop_append_drop)
  have 1: "parseString (Suc (length xs + Suc (Suc (Suc m)))) text False \<lparr>cursor = i, out = b\<rparr> =
      parseString_loop (length xs + Suc (Suc (Suc m))) text False False isDoubleQuote i (length b)
        [codeDoubleQuote] \<lparr>cursor = Suc i, out = b\<rparr>"
    using d0 by (rule parseString_open)
  have 2: "parseString_loop (length xs + Suc (Suc (Suc m))) text False False isDoubleQuote i
        (length b) [codeDoubleQuote] \<lparr>cursor = Suc i, out = b\<rparr> =
      parseString_loop (Suc (Suc (Suc m))) text False False isDoubleQuote i (length b)
        ([codeDoubleQuote] @ renderItems xs)
        \<lparr>cursor = Suc i + length (renderItems xs), out = b\<rparr>"
    using assms(1) d1 by (rule parseString_loop_items)
  have 3: "parseString_loop (Suc (Suc (Suc m))) text False False isDoubleQuote i (length b)
        ([codeDoubleQuote] @ renderItems xs)
        \<lparr>cursor = Suc i + length (renderItems xs), out = b\<rparr> =
      (case parseConcatenatedString (Suc (Suc m)) text
                 \<lparr>cursor = Suc i + length (renderItems xs) + 1 + length w1,
                    out = b @ ([codeDoubleQuote] @ renderItems xs) @ codeDoubleQuote # w1\<rparr> of
            OutOfFuel \<Rightarrow> OutOfFuel
          | Throw e \<Rightarrow> Throw e
          | Ok (processed, s3) \<Rightarrow> Ok (True, s3))"
    using d2 assms(3) by (rule parseString_loop_end_plus)
  have 4: "parseConcatenatedString (Suc (Suc m)) text
           \<lparr>cursor = Suc (Suc i + length (renderItems xs)) + length w1,
              out = (b @ codeDoubleQuote # renderItems xs) @ codeDoubleQuote # w1\<rparr> =
         (case parseString m text False
                 \<lparr>cursor = Suc (Suc i + length (renderItems xs)) + length w1 + 1 + length w2,
                    out = b @ codeDoubleQuote # renderItems xs\<rparr> of
            OutOfFuel \<Rightarrow> OutOfFuel
          | Throw e \<Rightarrow> Throw e
          | Ok (parsedStr, s3) \<Rightarrow>
              parseConcatenatedString_loop m text True
                (if parsedStr
                 then s3\<lparr>out := removeAtIndex (out s3) (length (b @ codeDoubleQuote # renderItems xs)) 1\<rparr>
                 else s3\<lparr>out := insertBeforeLastWhitespace (out s3) [codeDoubleQuote]\<rparr>))"
    using d4 assms(3,4,5,6) by (rule parseConcatenatedString_plus)
  have e: "length xs + 4 + m = Suc (length xs + Suc (Suc (Suc m)))" by simp
  have c: "Suc i + length (renderItems xs) + 1 + length w1 =
      Suc (Suc i + length (renderItems xs)) + length w1"
    "b @ ([codeDoubleQuote] @ renderItems xs) @ codeDoubleQuote # w1 =
      (b @ codeDoubleQuote # renderItems xs) @ codeDoubleQuote # w1"
    "Suc (Suc i + length (renderItems xs)) + length w1 + 1 + length w2 =
      i + length (renderString xs @ w1 @ codePlus # w2)"
    by (simp_all add: renderString_def)
  show ?thesis
    unfolding e 1 2 3 unfolding c(1,2) 4 unfolding c(3)
    by (simp split: result.split prod.split)
qed

lemma parseString_concat:
  assumes "list_all wfOperand gs" "list_all wfItem xs" "list_all isWhitespace w" "valueEnd r"
    "drop i text = concatenation xs gs @ w @ r" "concatenationFuel xs gs \<le> n"
  shows "parseString n text False \<lparr>cursor = i, out = b\<rparr> =
         Ok (True, \<lparr>cursor = i + length (concatenation xs gs) + length w,
                    out = b @ renderString (joined xs gs) @ w\<rparr>)"
  using assms
proof (induction gs arbitrary: xs i b n)
  case Nil
  then obtain k where n: "n = length xs + 4 + k"
    by (auto simp: concatenationFuel_def le_iff_add)
  show ?case
    unfolding n using Nil.prems
    by (simp add: parseString_whole [where r = r] follows_valueEnd concatenation_def joined_def)
next
  case (Cons g gs)
  obtain w1 w2 ys where g: "g = Operand w1 w2 ys" by (cases g)
  have wf: "list_all isWhitespace w1" "list_all isWhitespace w2" "list_all wfItem ys"
    "list_all wfOperand gs"
    using Cons.prems(1) g by simp_all
  obtain m where n: "n = length xs + 4 + m" and m: "concatenationFuel ys gs \<le> m"
    using Cons.prems(6) g by (auto simp: concatenationFuel_def le_iff_add)
  obtain m' where m': "m = Suc m'"
    using m by (cases m) (simp_all add: concatenationFuel_def)
  define rest where "rest = concatenation ys gs @ w @ r"
  have d: "drop i text = renderString xs @ w1 @ codePlus # w2 @ rest"
    using Cons.prems(5) g by (simp add: concatenation_def rest_def)
  have q: "\<not> headIs isWhitespace rest" "\<not> headIs isSpecialWhitespace rest"
    by (simp_all add: rest_def concatenation_def renderString_def classifier_defs)
  define j where "j = i + length (renderString xs @ w1 @ codePlus # w2)"
  have dj: "drop j text = concatenation ys gs @ w @ r"
    using drop_append_drop [of i "text" "renderString xs @ w1 @ codePlus # w2" rest] d
    by (simp add: j_def rest_def)
  have dr: "drop (j + length (concatenation ys gs) + length w) text = r"
    using drop_append_drop [of j "text" "concatenation ys gs @ w" r] dj by (simp add: add.assoc)
  have ih: "parseString m text False \<lparr>cursor = j, out = b @ codeDoubleQuote # renderItems xs\<rparr> =
      Ok (True, \<lparr>cursor = j + length (concatenation ys gs) + length w,
                 out = (b @ codeDoubleQuote # renderItems xs) @ renderString (joined ys gs) @ w\<rparr>)"
    using wf(4,3) Cons.prems(3,4) dj m by (rule Cons.IH)
  have rm: "removeAtIndex ((b @ codeDoubleQuote # renderItems xs) @ renderString (joined ys gs) @ w)
      (length (b @ codeDoubleQuote # renderItems xs)) 1 =
      b @ renderString (joined xs (g # gs)) @ w"
    using removeAtIndex_at [of "b @ codeDoubleQuote # renderItems xs" codeDoubleQuote
        "renderItems (joined ys gs) @ codeDoubleQuote # w"]
    by (simp add: renderString_def joined_def g renderItems_def)
  have l: "j + length (concatenation ys gs) + length w =
      i + length (concatenation xs (g # gs)) + length w"
    by (simp add: j_def concatenation_def g)
  have pc: "parseConcatenatedString_loop (Suc m') text True
      \<lparr>cursor = j + length (concatenation ys gs) + length w,
         out = b @ renderString (joined xs (g # gs)) @ w\<rparr> =
      Ok (True, \<lparr>cursor = j + length (concatenation ys gs) + length w,
         out = b @ renderString (joined xs (g # gs)) @ w\<rparr>)"
    using dr valueEnd_facts(4) [OF Cons.prems(4)]
    by (intro parseConcatenatedString_loop_none) simp
  note t = parseString_to_plus [OF Cons.prems(2) d wf(1,2) q, of m b, folded j_def]
  show ?case
    unfolding n t ih using rm pc by (simp add: m' l)
qed

lemma parseString_plus_nothing:
  assumes "list_all wfItem xs" "list_all isWhitespace w1" "list_all isWhitespace w2" "valueEnd r"
    "drop i text = renderString xs @ w1 @ codePlus # w2 @ r"
  shows "parseString (length xs + 5 + n) text False \<lparr>cursor = i, out = b\<rparr> =
         Ok (True, \<lparr>cursor = i + length (renderString xs @ w1 @ codePlus # w2),
                    out = insertBeforeLastWhitespace (b @ codeDoubleQuote # renderItems xs)
                            [codeDoubleQuote]\<rparr>)"
proof -
  note v = valueEnd_facts [OF assms(4)]
  define j where "j = i + length (renderString xs @ w1 @ codePlus # w2)"
  have dj: "drop j text = r"
    using drop_append_drop [of i "text" "renderString xs @ w1 @ codePlus # w2" r] assms(5)
    by (simp add: j_def)
  have ps: "parseString (Suc n) text False \<lparr>cursor = j, out = b @ codeDoubleQuote # renderItems xs\<rparr> =
      Ok (False, \<lparr>cursor = j, out = b @ codeDoubleQuote # renderItems xs\<rparr>)"
    using dj v by (intro parseString_none) simp_all
  have pc: "parseConcatenatedString_loop (Suc n) text True
      \<lparr>cursor = j, out = insertBeforeLastWhitespace (b @ codeDoubleQuote # renderItems xs)
                            [codeDoubleQuote]\<rparr> =
      Ok (True, \<lparr>cursor = j, out = insertBeforeLastWhitespace (b @ codeDoubleQuote # renderItems xs)
                            [codeDoubleQuote]\<rparr>)"
    using dj v(4) by (intro parseConcatenatedString_loop_none) simp
  have e: "length xs + 5 + n = length xs + 4 + Suc n" by simp
  note t = parseString_to_plus [OF assms(1,5,2,3) v(1,2), of "Suc n" b, folded j_def]
  show ?thesis
    unfolding e t ps using pc by (simp add: j_def)
qed

text \<open>A value that ends where the text ends is the whole result.\<close>

lemma jsonrepair_loop_at_end:
  "length text \<le> cursor s \<Longrightarrow> jsonrepair_loop text s = s"
  by (subst jsonrepair_loop.simps) (simp add: charCodeAt_def)

lemma jsonrepair_at_end:
  assumes "parseValue n text \<lparr>cursor = 0, out = []\<rparr> = Ok (True, s1)" "length text \<le> cursor s1"
  shows "jsonrepair n text = Ok (out s1)"
  using assms
  by (simp add: jsonrepair_def parseCharacter_def charCodeAt_def atIndex_def Let_def
      jsonrepair_loop_at_end)

lemma parseObject_none:
  "headOf (drop (cursor s) text) \<noteq> Some codeOpeningBrace \<Longrightarrow>
   parseObject (Suc n) text s = Ok (False, s)"
  by (simp add: parseObject_Suc parseObject_body_def charCodeAt_headOf)

lemma parseArray_none:
  "headOf (drop (cursor s) text) \<noteq> Some codeOpeningBracket \<Longrightarrow>
   parseArray (Suc n) text s = Ok (False, s)"
  by (simp add: parseArray_Suc parseArray_body_def charCodeAt_headOf)

text \<open>\<open>parseValue\<close> at a double quote is \<open>parseString\<close> and the whitespace after it.\<close>

lemma parseValue_string:
  assumes "drop i text = codeDoubleQuote # r"
    "parseString (Suc n) text False \<lparr>cursor = i, out = b\<rparr> = Ok (True, s')"
  shows "parseValue (Suc (Suc n)) text \<lparr>cursor = i, out = b\<rparr> =
           Ok (True, snd (parseWhitespaceAndSkipComments text s'))"
proof -
  have ws: "parseWhitespaceAndSkipComments text \<lparr>cursor = i, out = b\<rparr> =
      (False, \<lparr>cursor = i, out = b\<rparr>)"
    using assms(1) by (intro skip_whitespace_none) (simp_all add: classifier_defs)
  have po: "parseObject (Suc n) text \<lparr>cursor = i, out = b\<rparr> = Ok (False, \<lparr>cursor = i, out = b\<rparr>)"
    using assms(1) by (intro parseObject_none) simp
  have pa: "parseArray (Suc n) text \<lparr>cursor = i, out = b\<rparr> = Ok (False, \<lparr>cursor = i, out = b\<rparr>)"
    using assms(1) by (intro parseArray_none) simp
  show ?thesis
    by (simp add: parseValue_Suc [of "Suc n"] parseValue_body_def ws po pa assms(2))
qed

lemma jsonrepair_concat:
  assumes "list_all wfItem xs" "list_all wfOperand gs" "list_all isWhitespace w"
    "concatenationFuel xs gs < n"
  shows "jsonrepair n (concatenation xs gs @ w) = Ok (renderString (joined xs gs) @ w)"
proof -
  define tx where "tx = concatenation xs gs @ w"
  obtain m where n: "n = Suc (Suc m)" and m: "concatenationFuel xs gs \<le> Suc m"
    using assms(4) by (cases n; cases "n - 1") (auto simp: concatenationFuel_def)
  have d: "drop 0 tx = concatenation xs gs @ w @ []" by (simp add: tx_def)
  have ps: "parseString (Suc m) tx False \<lparr>cursor = 0, out = []\<rparr> =
      Ok (True, \<lparr>cursor = 0 + length (concatenation xs gs) + length w,
                 out = [] @ renderString (joined xs gs) @ w\<rparr>)"
    using assms(2,1,3) _ d m by (rule parseString_concat) (simp add: valueEnd_def)
  have q: "drop 0 tx = codeDoubleQuote # tl tx"
    by (simp add: tx_def concatenation_def renderString_def)
  have e: "parseWhitespaceAndSkipComments tx
      \<lparr>cursor = 0 + length (concatenation xs gs) + length w,
         out = [] @ renderString (joined xs gs) @ w\<rparr> =
      (False, \<lparr>cursor = 0 + length (concatenation xs gs) + length w,
         out = [] @ renderString (joined xs gs) @ w\<rparr>)"
    by (rule skip_whitespace_at_end) (simp add: tx_def)
  have "parseValue n tx \<lparr>cursor = 0, out = []\<rparr> =
      Ok (True, \<lparr>cursor = 0 + length (concatenation xs gs) + length w,
                 out = [] @ renderString (joined xs gs) @ w\<rparr>)"
    unfolding n parseValue_string [OF q ps] e by simp
  then have "jsonrepair n tx = Ok (renderString (joined xs gs) @ w)"
    using jsonrepair_at_end [of n tx] by (simp add: tx_def)
  then show ?thesis by (simp add: tx_def)
qed

section \<open>Values of JSON\<close>

text \<open>A number of JSON is read whole by \<open>parseNumber\<close>.\<close>

lemma wfNumber_exponent:
  assumes "wfNumber sg ds fs em es" "em \<noteq> []"
  obtains e sn where "em = e # sn" "e = codeLowercaseE \<or> e = codeUppercaseE"
    "sn = [] \<or> sn = [codePlus] \<or> sn = [codeMinus]" "es \<noteq> []" "list_all isDigit es"
  using assms by (auto simp: wfNumber_def)

lemma numberEnd_facts:
  assumes "r = [] \<or> headIs isDelimiter r \<or> headIs isWhitespace r"
  shows "\<not> headIs isDigit r" "headOf r \<noteq> Some codeDot" "headOf r \<noteq> Some codeLowercaseE"
    "headOf r \<noteq> Some codeUppercaseE"
  using assms by (cases r; auto simp: classifier_defs)+

lemma parseNumber_valid:
  assumes "wfNumber sg ds fs em es" "drop (cursor s) text = renderNumber sg ds fs em es @ r"
    "r = [] \<or> headIs isDelimiter r \<or> headIs isWhitespace r"
  shows "parseNumber text s =
           (True, s\<lparr>cursor := cursor s + length (renderNumber sg ds fs em es),
                    out := out s @ renderNumber sg ds fs em es\<rparr>)"
proof -
  note e = numberEnd_facts [OF assms(3)]
  define fr where "fr = (if fs = [] then [] else codeDot # fs)"
  define ex where "ex = em @ es"
  have wf: "sg = [] \<or> sg = [codeMinus]" "ds \<noteq> []" "list_all isDigit ds"
    "ds = [codeZero] \<or> hd ds \<noteq> codeZero" "list_all isDigit fs"
    using assms(1) by (simp_all add: wfNumber_def)
  obtain d ds' where ds: "ds = d # ds'" using wf(2) by (cases ds) auto
  have d: "isDigit d" using wf(3) ds by simp
  have d0: "drop (cursor s) text = sg @ ds @ fr @ ex @ r"
    using assms(2) by (simp add: renderNumber_def fr_def ex_def)
  have exh: "\<not> headIs isDigit (ex @ r)" "headOf (ex @ r) \<noteq> Some codeDot"
    using e assms(1) by (cases "em = []"; auto simp: ex_def wfNumber_def isDigit_def)+
  have 1: "parseNumber text s =
      parseNumber_fraction text (cursor s) (s\<lparr>cursor := cursor s + length sg\<rparr>)"
    using d0 wf(1) d ds
    by (intro parseNumber_sign [where d = d and r = "ds' @ fr @ ex @ r"]) simp_all
  have d1: "drop (cursor s + length sg) text = ds @ fr @ ex @ r"
    using d0 by (rule drop_append_drop)
  have 2: "parseNumber_fraction text (cursor s) (s\<lparr>cursor := cursor s + length sg\<rparr>) =
      parseNumber_exponent text (cursor s)
        (s\<lparr>cursor := cursor s + length sg + length ds + length fr\<rparr>)"
  proof (cases "fs = []")
    case True
    then show ?thesis
      using parseNumber_fraction_none [of "cursor s + length sg" "text" ds "ex @ r" "cursor s" s]
        d1 wf(3) exh by (simp add: fr_def)
  next
    case False
    then show ?thesis
      using parseNumber_fraction_some [of "cursor s + length sg" "text" ds fs "ex @ r" "cursor s" s]
        d1 wf(3,5) exh by (simp add: fr_def add.assoc)
  qed
  define j where "j = cursor s + length sg + length ds + length fr"
  have d2: "drop j text = ex @ r"
    using drop_append_drop [of "cursor s" "text" "sg @ ds @ fr" "ex @ r"] d0
    by (simp add: j_def add.assoc)
  have 3: "parseNumber_exponent text (cursor s) (s\<lparr>cursor := j\<rparr>) =
      parseNumber_end text (cursor s) (s\<lparr>cursor := j + length ex\<rparr>)"
  proof (cases "em = []")
    case True
    then have "ex = []" using assms(1) by (simp add: ex_def wfNumber_def)
    then show ?thesis
      using parseNumber_exponent_none [of "s\<lparr>cursor := j\<rparr>" "text" "cursor s"] d2 e by simp
  next
    case False
    with assms(1) obtain c sn where em: "em = c # sn" "c = codeLowercaseE \<or> c = codeUppercaseE"
      "sn = [] \<or> sn = [codePlus] \<or> sn = [codeMinus]" "es \<noteq> []" "list_all isDigit es"
      by (rule wfNumber_exponent)
    have "drop j text = c # sn @ es @ r" using d2 em(1) by (simp add: ex_def)
    from parseNumber_exponent_some [OF this em(2,3,5,4) e(1), of "cursor s" s]
    show ?thesis by (simp add: ex_def em(1) add.assoc)
  qed
  define k where "k = j + length ex"
  have d3: "drop k text = r"
    using drop_append_drop [OF d2] by (simp add: k_def)
  have atend: "atEndOfNumber text k"
    using assms(3) d3 by (simp add: atEndOfNumber_drop)
  have lt: "cursor s < k" using wf(2) by (simp add: k_def j_def)
  have sl: "slice text (cursor s) k = sg @ ds @ fr @ ex"
    using slice_drop [of "cursor s" "text" "sg @ ds @ fr @ ex" r] d0
    by (simp add: k_def j_def add.assoc)
  have z: "\<not> hasInvalidLeadingZero (sg @ ds @ fr @ ex)"
  proof (cases "sg = []")
    case False
    then show ?thesis
      using wf(1) ds by (simp add: hasInvalidLeadingZero_def isDigit_def)
  next
    case True
    show ?thesis
    proof (cases "ds = [codeZero]")
      case False
      then show ?thesis
        using True wf(4) ds by (auto simp: hasInvalidLeadingZero_def split: list.split)
    next
      case z: True
      have "\<not> headIs isDigit (fr @ ex @ r)"
        using exh by (simp add: fr_def isDigit_def)
      then have "\<not> headIs isDigit (fr @ ex)"
        by (cases "fr @ ex") (simp_all add: append_assoc [symmetric] del: append_assoc)
      then show ?thesis
        using True z by (cases "fr @ ex") (simp_all add: hasInvalidLeadingZero_def)
    qed
  qed
  have 4: "parseNumber_end text (cursor s) (s\<lparr>cursor := k\<rparr>) =
      (True, s\<lparr>cursor := k, out := out s @ sg @ ds @ fr @ ex\<rparr>)"
    using parseNumber_end_whole [OF atend lt, of s] sl z by simp
  have l: "k = cursor s + length (renderNumber sg ds fs em es)"
    "renderNumber sg ds fs em es = sg @ ds @ fr @ ex"
    by (simp_all add: k_def j_def renderNumber_def fr_def ex_def)
  show ?thesis
    using 1 2 3 4 by (simp add: j_def [symmetric] k_def [symmetric] l [symmetric])
qed

text \<open>At a keyword \<open>parseNumber\<close> fails and leaves the state alone, and \<open>parseKeywords\<close>
  copies the keyword.\<close>

lemma parseNumber_letter:
  assumes "drop (cursor s) text = c # r" "c = 0x74 \<or> c = 0x66 \<or> c = 0x6e"
  shows "parseNumber text s = (False, s)"
proof -
  have "\<not> isDigit c" "\<not> isDelimiter c" "\<not> isWhitespace c"
    using assms(2) by (auto simp: classifier_defs)
  then show ?thesis
    using assms drop_Cons_length [OF assms(1)]
    by (auto simp: parseNumber_def parseNumber_fraction_def parseNumber_exponent_def
        parseNumber_end_def parseNumber_digits_stop atEndOfNumber_def reads)
qed

lemma parseKeyword_at:
  assumes "drop (cursor s) text = name @ r"
  shows "parseKeyword text name val s =
           (True, s\<lparr>out := out s @ val, cursor := cursor s + length name\<rparr>)"
  using slice_drop [OF assms] by (simp add: parseKeyword_def)

lemma parseKeyword_not_at:
  assumes "drop (cursor s) text = c # r" "hd name \<noteq> c" "name \<noteq> []"
  shows "parseKeyword text name val s = (False, s)"
proof -
  have "slice text (cursor s) (cursor s + length name) \<noteq> name"
    using assms by (cases name) (auto simp: slice_def)
  then show ?thesis by (simp add: parseKeyword_def)
qed

lemma token_true:
  assumes "drop (cursor s) text = js ''true'' @ r"
  shows "orElse (parseNumber text s) (parseKeywords text) =
           (True, s\<lparr>out := out s @ js ''true'', cursor := cursor s + 4\<rparr>)"
proof -
  have d: "drop (cursor s) text = 0x74 # (js ''rue'' @ r)" using assms by (simp add: js_def)
  show ?thesis
    using parseNumber_letter [OF d] parseKeyword_at [OF assms, of "js ''true''"]
    by (simp add: orElse_def parseKeywords_def js_def)
qed

lemma token_false:
  assumes "drop (cursor s) text = js ''false'' @ r"
  shows "orElse (parseNumber text s) (parseKeywords text) =
           (True, s\<lparr>out := out s @ js ''false'', cursor := cursor s + 5\<rparr>)"
proof -
  have d: "drop (cursor s) text = 0x66 # (js ''alse'' @ r)" using assms by (simp add: js_def)
  show ?thesis
    using parseNumber_letter [OF d] parseKeyword_at [OF assms, of "js ''false''"]
      parseKeyword_not_at [OF d, of "js ''true''" "js ''true''"]
    by (simp add: orElse_def parseKeywords_def js_def)
qed

lemma token_null:
  assumes "drop (cursor s) text = js ''null'' @ r"
  shows "orElse (parseNumber text s) (parseKeywords text) =
           (True, s\<lparr>out := out s @ js ''null'', cursor := cursor s + 4\<rparr>)"
proof -
  have d: "drop (cursor s) text = 0x6e # (js ''ull'' @ r)" using assms by (simp add: js_def)
  show ?thesis
    using parseNumber_letter [OF d] parseKeyword_at [OF assms, of "js ''null''"]
      parseKeyword_not_at [OF d, of "js ''true''" "js ''true''"]
      parseKeyword_not_at [OF d, of "js ''false''" "js ''false''"]
    by (simp add: orElse_def parseKeywords_def js_def)
qed

text \<open>\<open>parseValue\<close> at a number or a keyword, and \<open>parseValue\<close> at whitespace.\<close>

lemma parseValue_token:
  assumes "orElse (parseNumber text s) (parseKeywords text) = (True, s')"
    "\<not> headIs isWhitespace (drop (cursor s) text)"
    "\<not> headIs isSpecialWhitespace (drop (cursor s) text)"
    "headOf (drop (cursor s) text) \<noteq> Some codeOpeningBrace"
    "headOf (drop (cursor s) text) \<noteq> Some codeOpeningBracket"
    "headOf (drop (cursor s) text) \<noteq> Some codeBackslash"
    "\<not> headIs isQuote (drop (cursor s) text)"
  shows "parseValue (Suc (Suc n)) text s = Ok (True, snd (parseWhitespaceAndSkipComments text s'))"
  using assms
  by (simp add: parseValue_Suc [of "Suc n"] parseValue_body_def skip_whitespace_none
      parseObject_none parseArray_none parseString_none)

lemma parseValue_leading:
  assumes "drop i text = w @ r" "list_all isWhitespace w" "\<not> headIs isWhitespace r"
    "\<not> headIs isSpecialWhitespace r"
  shows "parseValue n text \<lparr>cursor = i, out = b\<rparr> =
           parseValue n text \<lparr>cursor = i + length w, out = b @ w\<rparr>"
proof (cases n)
  case 0
  then show ?thesis by (simp add: parseValue_0)
next
  case (Suc m)
  have 1: "parseWhitespaceAndSkipComments text \<lparr>cursor = i, out = b\<rparr> =
      (w \<noteq> [], \<lparr>cursor = i + length w, out = b @ w\<rparr>)"
    using assms(2,1,3,4) by (rule skip_whitespace_to)
  have 2: "parseWhitespaceAndSkipComments text \<lparr>cursor = i + length w, out = b @ w\<rparr> =
      (False, \<lparr>cursor = i + length w, out = b @ w\<rparr>)"
    using drop_append_drop [OF assms(1)] assms(3,4) by (intro skip_whitespace_none) simp_all
  show ?thesis
    by (simp add: Suc parseValue_Suc parseValue_body_def 1 2)
qed

lemma renderValue_start:
  "wfValue v \<Longrightarrow> headIs valueStart (renderValue v @ r)"
  by (cases v) (auto simp: valueStart_def js_def renderNumber_def wfNumber_def renderString_def
      neq_Nil_conv)

lemma valueStart_facts:
  assumes "headIs valueStart r"
  shows "\<not> headIs isWhitespace r" "\<not> headIs isSpecialWhitespace r" "headOf r \<noteq> Some codeDot"
    "headOf r \<noteq> Some codeClosingBracket" "headOf r \<noteq> Some codeClosingBrace"
    "headOf r \<noteq> Some codeComma" "r \<noteq> []"
  using assms by (cases r; auto simp: valueStart_def classifier_defs)+

lemma copiesD:
  assumes "copies x" "list_all isWhitespace w" "follows w r" "drop i text = x @ w @ r"
    "2 * length x < n"
  shows "parseValue n text \<lparr>cursor = i, out = b\<rparr> =
           Ok (True, \<lparr>cursor = i + length x + length w, out = b @ x @ w\<rparr>)"
  using assms unfolding copies_def by blast

lemma copies_leading:
  assumes "copies x" "list_all isWhitespace w1" "headIs valueStart x"
  shows "copies (w1 @ x)"
  unfolding copies_def
proof (intro allI impI, elim conjE)
  fix tx b w r and i n :: nat
  assume h: "list_all isWhitespace w" "follows w r" "drop i tx = (w1 @ x) @ w @ r"
    "2 * length (w1 @ x) < n"
  have hx: "headIs valueStart (x @ w @ r)" using assms(3) by (cases x) simp_all
  have d: "drop i tx = w1 @ (x @ w @ r)" using h(3) by simp
  have "parseValue n tx \<lparr>cursor = i, out = b\<rparr> =
      parseValue n tx \<lparr>cursor = i + length w1, out = b @ w1\<rparr>"
    using d assms(2) valueStart_facts(1,2) [OF hx] by (rule parseValue_leading)
  also have "\<dots> = Ok (True, \<lparr>cursor = i + length w1 + length x + length w,
      out = (b @ w1) @ x @ w\<rparr>)"
    using assms(1) h drop_append_drop [OF d] by (simp add: copies_def)
  finally show "parseValue n tx \<lparr>cursor = i, out = b\<rparr> =
      Ok (True, \<lparr>cursor = i + length (w1 @ x) + length w, out = b @ (w1 @ x) @ w\<rparr>)"
    by (simp add: add.assoc)
qed

text \<open>\<open>parseValue\<close> copies the keywords, the numbers and the strings of JSON.\<close>

lemma copies_token:
  assumes "\<And>text s r. drop (cursor s) text = x @ r \<Longrightarrow>
      r = [] \<or> headIs isDelimiter r \<or> headIs isWhitespace r \<Longrightarrow>
      orElse (parseNumber text s) (parseKeywords text) =
        (True, s\<lparr>out := out s @ x, cursor := cursor s + length x\<rparr>)"
    "headIs valueStart x" "\<not> headIs isQuote x" "headOf x \<noteq> Some codeOpeningBrace"
    "headOf x \<noteq> Some codeOpeningBracket"
  shows "copies x"
  unfolding copies_def
proof (intro allI impI, elim conjE)
  fix tx b w r and i n :: nat
  assume h: "list_all isWhitespace w" "follows w r" "drop i tx = x @ w @ r" "2 * length x < n"
  note f = follows_facts [OF h(2)]
  obtain c x' where x: "x = c # x'" using assms(2) by (cases x) auto
  have c: "valueStart c" "\<not> isQuote c" "c \<noteq> codeOpeningBrace" "c \<noteq> codeOpeningBracket"
    using assms(2-5) x by simp_all
  obtain m where n: "n = Suc (Suc m)" using h(4) x by (cases n; cases "n - 1") auto
  have e: "w @ r = [] \<or> headIs isDelimiter (w @ r) \<or> headIs isWhitespace (w @ r)"
  proof (cases w)
    case Nil
    then show ?thesis
      using f(5) valueEnd_facts(3) [of r] by auto
  next
    case (Cons a w')
    then show ?thesis using h(1) by simp
  qed
  have t: "orElse (parseNumber tx \<lparr>cursor = i, out = b\<rparr>) (parseKeywords tx) =
      (True, \<lparr>cursor = i + length x, out = b @ x\<rparr>)"
    using assms(1) [of "\<lparr>cursor = i, out = b\<rparr>" tx "w @ r"] h(3) e by simp
  have ws: "parseWhitespaceAndSkipComments tx \<lparr>cursor = i + length x, out = b @ x\<rparr> =
      (w \<noteq> [], \<lparr>cursor = i + length x + length w, out = (b @ x) @ w\<rparr>)"
    using h(1) drop_append_drop [OF h(3)] f(1,2) by (rule skip_whitespace_to)
  have "parseValue (Suc (Suc m)) tx \<lparr>cursor = i, out = b\<rparr> =
      Ok (True, snd (parseWhitespaceAndSkipComments tx \<lparr>cursor = i + length x, out = b @ x\<rparr>))"
    using t h(3) c x
    by (intro parseValue_token) (auto simp: valueStart_def classifier_defs)
  then show "parseValue n tx \<lparr>cursor = i, out = b\<rparr> =
      Ok (True, \<lparr>cursor = i + length x + length w, out = b @ x @ w\<rparr>)"
    by (simp add: n ws)
qed

lemma copies_true: "copies (js ''true'')"
  by (rule copies_token) (simp_all add: token_true, simp_all add: js_def valueStart_def classifier_defs)

lemma copies_false: "copies (js ''false'')"
  by (rule copies_token) (simp_all add: token_false, simp_all add: js_def valueStart_def classifier_defs)

lemma copies_null: "copies (js ''null'')"
  by (rule copies_token) (simp_all add: token_null, simp_all add: js_def valueStart_def classifier_defs)

lemma copies_number:
  assumes "wfNumber sg ds fs em es"
  shows "copies (renderNumber sg ds fs em es)"
proof (rule copies_token)
  fix tx r and s :: pstate
  assume "drop (cursor s) tx = renderNumber sg ds fs em es @ r"
    "r = [] \<or> headIs isDelimiter r \<or> headIs isWhitespace r"
  from parseNumber_valid [OF assms this]
  show "orElse (parseNumber tx s) (parseKeywords tx) =
      (True, s\<lparr>out := out s @ renderNumber sg ds fs em es,
               cursor := cursor s + length (renderNumber sg ds fs em es)\<rparr>)"
    by (simp add: orElse_def)
next
  have "headIs valueStart (renderValue (JNumber sg ds fs em es) @ [])"
    using assms by (intro renderValue_start) simp
  then show "headIs valueStart (renderNumber sg ds fs em es)" by simp
  show "\<not> headIs isQuote (renderNumber sg ds fs em es)"
    "headOf (renderNumber sg ds fs em es) \<noteq> Some codeOpeningBrace"
    "headOf (renderNumber sg ds fs em es) \<noteq> Some codeOpeningBracket"
    using assms
    by (auto simp: renderNumber_def wfNumber_def neq_Nil_conv classifier_defs)
qed

lemma copies_string:
  assumes "list_all wfItem xs"
  shows "copies (renderString xs)"
  unfolding copies_def
proof (intro allI impI, elim conjE)
  fix tx b w r and i n :: nat
  assume h: "list_all isWhitespace w" "follows w r" "drop i tx = renderString xs @ w @ r"
    "2 * length (renderString xs) < n"
  note f = follows_facts [OF h(2)]
  have "length xs \<le> length (renderItems xs)"
    by (induction xs) (auto simp: less_eq_Suc_le intro: le_trans, (case_tac a; simp)+)
  then have "length xs + 5 \<le> n"
    using h(4) by (simp add: renderString_def)
  then obtain m where n: "n = Suc (Suc (length xs + 3 + m))"
    by (auto simp: le_iff_add)
  have d: "drop i tx = codeDoubleQuote # (renderItems xs @ codeDoubleQuote # w @ r)"
    using h(3) by (simp add: renderString_def)
  have ps: "parseString (Suc (length xs + 3 + m)) tx False \<lparr>cursor = i, out = b\<rparr> =
      Ok (True, \<lparr>cursor = i + length (renderString xs) + length w, out = b @ renderString xs @ w\<rparr>)"
    using parseString_whole [OF assms h(3,1,2), of m b] by (simp add: numeral_eq_Suc)
  have ws: "parseWhitespaceAndSkipComments tx
      \<lparr>cursor = i + length (renderString xs) + length w, out = b @ renderString xs @ w\<rparr> =
      (False, \<lparr>cursor = i + length (renderString xs) + length w, out = b @ renderString xs @ w\<rparr>)"
    using drop_append_drop [of i tx "renderString xs @ w" r] h(3) f(1,2)
    by (intro skip_whitespace_none) (simp_all add: add.assoc)
  show "parseValue n tx \<lparr>cursor = i, out = b\<rparr> =
      Ok (True, \<lparr>cursor = i + length (renderString xs) + length w, out = b @ renderString xs @ w\<rparr>)"
    unfolding n parseValue_string [OF d ps] ws by simp
qed

text \<open>Arrays: the elements after the first, each behind its comma, the first element, and
  the array.\<close>

lemma skipEllipsis_none:
  assumes "list_all isWhitespace w" "drop i text = w @ r" "\<not> headIs isWhitespace r"
    "\<not> headIs isSpecialWhitespace r" "headOf r \<noteq> Some codeDot"
  shows "skipEllipsis text \<lparr>cursor = i, out = b\<rparr> = (False, \<lparr>cursor = i + length w, out = b @ w\<rparr>)"
  using skip_whitespace_to [OF assms(1-4), of b] drop_append_drop [OF assms(2)] assms(5)
  by (simp add: skipEllipsis_def charCodeAt_headOf)

lemma joinComma_Cons:
  "joinComma (x # xs) = x @ concat (map (\<lambda>y. codeComma # y) xs)"
  by (induction xs arbitrary: x) simp_all

lemma parseCharacter_at:
  "drop i text = c # r \<Longrightarrow>
   parseCharacter text c \<lparr>cursor = i, out = b\<rparr> = (True, \<lparr>cursor = Suc i, out = b @ [c]\<rparr>)"
  by (simp add: parseCharacter_def charCodeAt_Cons drop_Cons_nth)

lemma parseCharacter_not_at:
  "headOf (drop (cursor s) text) \<noteq> Some c \<Longrightarrow> parseCharacter text c s = (False, s)"
  by (simp add: parseCharacter_def charCodeAt_headOf)

lemma skipCharacter_not_at:
  "headOf (drop (cursor s) text) \<noteq> Some c \<Longrightarrow> skipCharacter text c s = (False, s)"
  by (simp add: skipCharacter_def charCodeAt_headOf)

lemma parseArray_loop_value:
  assumes "copies x" "headIs valueStart x" "list_all isWhitespace w1" "list_all isWhitespace w2"
    "valueEnd r" "drop i text = w1 @ x @ w2 @ r" "2 * length x < m"
  shows "parseValue m text (snd (skipEllipsis text \<lparr>cursor = i, out = b\<rparr>)) =
         Ok (True, \<lparr>cursor = i + length (w1 @ x @ w2), out = b @ w1 @ x @ w2\<rparr>)"
proof -
  have hx: "headIs valueStart (x @ w2 @ r)" using assms(2) by (cases x) simp_all
  note v = valueStart_facts [OF hx]
  have 1: "skipEllipsis text \<lparr>cursor = i, out = b\<rparr> =
      (False, \<lparr>cursor = i + length w1, out = b @ w1\<rparr>)"
    using assms(3,6) v(1,2,3) by (rule skipEllipsis_none)
  have 2: "parseValue m text \<lparr>cursor = i + length w1, out = b @ w1\<rparr> =
      Ok (True, \<lparr>cursor = i + length w1 + length x + length w2, out = (b @ w1) @ x @ w2\<rparr>)"
    using copiesD [OF assms(1,4) follows_valueEnd [OF assms(5)] drop_append_drop [OF assms(6)]
        assms(7), of "b @ w1"]
    by simp
  show ?thesis by (simp add: 1 2 add.assoc)
qed

lemma parseArray_loop_tail:
  assumes "list_all wfElement es" "list_all elementCopies es"
    "drop i text = concat (map (\<lambda>y. codeComma # y) (map renderElement es)) @ codeClosingBracket # r"
    "2 * length (concat (map (\<lambda>y. codeComma # y) (map renderElement es))) + 2 \<le> n"
  shows "parseArray_loop n text False \<lparr>cursor = i, out = b\<rparr> =
         Ok \<lparr>cursor = i + length (concat (map (\<lambda>y. codeComma # y) (map renderElement es))),
             out = b @ concat (map (\<lambda>y. codeComma # y) (map renderElement es))\<rparr>"
  using assms
proof (induction es arbitrary: i b n)
  case Nil
  then obtain m where n: "n = Suc m" by (cases n) auto
  show ?case
    using Nil.prems(3) by (simp add: n parseArray_loop_Suc parseArray_loop_body_def reads)
next
  case (Cons e es)
  obtain w1 v w2 where e: "e = Element w1 v w2" by (cases e)
  define tl where "tl = concat (map (\<lambda>y. codeComma # y) (map renderElement es))"
  have wf: "list_all isWhitespace w1" "wfValue v" "list_all isWhitespace w2" "copies (renderValue v)"
    using Cons.prems(1,2) e by (simp_all add: elementCopies_def)
  obtain m where n: "n = Suc m" and m: "2 * length (renderValue v) < m" "2 * length tl + 2 \<le> m"
    using Cons.prems(4) e by (cases n) (auto simp: tl_def)
  have d: "drop i text = codeComma # (w1 @ renderValue v @ w2 @ (tl @ codeClosingBracket # r))"
    using Cons.prems(3) e by (simp add: tl_def)
  have d1: "drop (Suc i) text = w1 @ renderValue v @ w2 @ (tl @ codeClosingBracket # r)"
    using d by (rule drop_Cons_Suc)
  have ve: "valueEnd (tl @ codeClosingBracket # r)"
    by (cases es) (simp_all add: tl_def valueEnd_def)
  have pv: "parseValue m text (snd (skipEllipsis text \<lparr>cursor = Suc i, out = b @ [codeComma]\<rparr>)) =
      Ok (True, \<lparr>cursor = Suc i + length (w1 @ renderValue v @ w2),
                 out = (b @ [codeComma]) @ w1 @ renderValue v @ w2\<rparr>)"
    using wf(4) renderValue_start [OF wf(2), of "[]"] wf(1,3) ve d1 m(1)
    by (intro parseArray_loop_value) simp_all
  have d2: "drop (Suc i + length (w1 @ renderValue v @ w2)) text = tl @ codeClosingBracket # r"
    using drop_append_drop [of "Suc i" "text" "w1 @ renderValue v @ w2" "tl @ codeClosingBracket # r"]
      d1 by simp
  have ih: "parseArray_loop m text False
      \<lparr>cursor = Suc i + length (w1 @ renderValue v @ w2),
         out = (b @ [codeComma]) @ w1 @ renderValue v @ w2\<rparr> =
      Ok \<lparr>cursor = Suc i + length (w1 @ renderValue v @ w2) + length tl,
          out = ((b @ [codeComma]) @ w1 @ renderValue v @ w2) @ tl\<rparr>"
    unfolding tl_def using Cons.prems(1,2) d2 m(2) by (intro Cons.IH) (simp_all add: tl_def)
  have "parseArray_loop (Suc m) text False \<lparr>cursor = i, out = b\<rparr> =
      Ok \<lparr>cursor = Suc i + length (w1 @ renderValue v @ w2) + length tl,
          out = ((b @ [codeComma]) @ w1 @ renderValue v @ w2) @ tl\<rparr>"
    using drop_Cons_length [OF d] parseCharacter_at [OF d, of b] pv ih
    by (simp add: parseArray_loop_Suc parseArray_loop_body_def charCodeAt_Cons [OF d])
  then show ?case
    by (simp add: n e tl_def)
qed

lemma parseArray_loop_first:
  assumes "wfValue v" "copies (renderValue v)" "list_all isWhitespace w2"
    "list_all wfElement es" "list_all elementCopies es"
    "drop i text = renderValue v @ w2 @
       concat (map (\<lambda>y. codeComma # y) (map renderElement es)) @ codeClosingBracket # r"
    "2 * length (renderValue v @ w2 @
       concat (map (\<lambda>y. codeComma # y) (map renderElement es))) + 2 \<le> m"
  shows "parseArray_loop (Suc m) text True \<lparr>cursor = i, out = b\<rparr> =
         Ok \<lparr>cursor = i + length (renderValue v @ w2 @
                concat (map (\<lambda>y. codeComma # y) (map renderElement es))),
             out = b @ renderValue v @ w2 @
                concat (map (\<lambda>y. codeComma # y) (map renderElement es))\<rparr>"
proof -
  define tl where "tl = concat (map (\<lambda>y. codeComma # y) (map renderElement es))"
  have d: "drop i text = renderValue v @ w2 @ (tl @ codeClosingBracket # r)"
    using assms(6) by (simp add: tl_def)
  have hx: "headIs valueStart (drop i text)"
    unfolding d using assms(1) by (rule renderValue_start)
  note vs = valueStart_facts [OF hx]
  have ve: "valueEnd (tl @ codeClosingBracket # r)"
    by (cases es) (simp_all add: tl_def valueEnd_def)
  have m: "2 * length (renderValue v) < m" "2 * length tl + 2 \<le> m"
    using assms(7) by (simp_all add: tl_def)
  have hv: "headIs valueStart (renderValue v)"
    using renderValue_start [OF assms(1), of "[]"] by simp
  have pv: "parseValue m text (snd (skipEllipsis text \<lparr>cursor = i, out = b\<rparr>)) =
      Ok (True, \<lparr>cursor = i + length ([] @ renderValue v @ w2),
                 out = b @ [] @ renderValue v @ w2\<rparr>)"
    using parseArray_loop_value [OF assms(2) hv _ assms(3) ve _ m(1), of "[]" i "text" b] d
    by simp
  have d2: "drop (i + length (renderValue v @ w2)) text = tl @ codeClosingBracket # r"
    using drop_append_drop [of i "text" "renderValue v @ w2" "tl @ codeClosingBracket # r"] d
    by simp
  have lp: "parseArray_loop m text False
      \<lparr>cursor = i + length (renderValue v @ w2), out = b @ renderValue v @ w2\<rparr> =
      Ok \<lparr>cursor = i + length (renderValue v @ w2) + length tl,
          out = (b @ renderValue v @ w2) @ tl\<rparr>"
    unfolding tl_def using assms(4,5) d2 m(2)
    by (intro parseArray_loop_tail [where r = r]) (simp_all add: tl_def)
  have c: "i < length text" "charCodeAt text i \<noteq> Some codeClosingBracket"
    using vs(4,7) by (auto simp: charCodeAt_headOf intro: drop_Cons_length)
  have "i < length text"
    using vs(7) by (cases "i < length text") simp_all
  then have "parseArray_loop (Suc m) text True \<lparr>cursor = i, out = b\<rparr> =
      Ok \<lparr>cursor = i + length (renderValue v @ w2) + length tl,
          out = (b @ renderValue v @ w2) @ tl\<rparr>"
    using vs(4) pv lp
    by (simp add: parseArray_loop_Suc parseArray_loop_body_def charCodeAt_headOf)
  then show ?thesis
    by (simp add: tl_def add.assoc)
qed

lemma parseArray_valid:
  assumes "list_all isWhitespace w" "list_all wfElement es" "list_all elementCopies es"
    "drop i text = renderValue (JArray w es) @ r"
    "2 * length (renderValue (JArray w es)) \<le> n"
  shows "parseArray n text \<lparr>cursor = i, out = b\<rparr> =
         Ok (True, \<lparr>cursor = i + length (renderValue (JArray w es)),
                    out = b @ renderValue (JArray w es)\<rparr>)"
proof (cases es)
  case Nil
  have d: "drop i text = codeOpeningBracket # (w @ codeClosingBracket # r)"
    using assms(4) Nil by simp
  have d1: "drop (Suc i) text = w @ codeClosingBracket # r" using d by (rule drop_Cons_Suc)
  have d2: "drop (Suc i + length w) text = codeClosingBracket # r"
    using d1 by (rule drop_append_drop)
  obtain m where n: "n = Suc (Suc m)" using assms(5) by (cases n; cases "n - 1") auto
  have ws: "parseWhitespaceAndSkipComments text \<lparr>cursor = Suc i, out = b @ [codeOpeningBracket]\<rparr> =
      (w \<noteq> [], \<lparr>cursor = Suc i + length w, out = (b @ [codeOpeningBracket]) @ w\<rparr>)"
    using assms(1) d1 by (rule skip_whitespace_to) (simp_all add: classifier_defs)
  have sk: "skipCharacter text codeComma
      \<lparr>cursor = Suc i + length w, out = (b @ [codeOpeningBracket]) @ w\<rparr> =
      (False, \<lparr>cursor = Suc i + length w, out = (b @ [codeOpeningBracket]) @ w\<rparr>)"
    using d2 by (intro skipCharacter_not_at) simp
  have lp: "parseArray_loop (Suc m) text True
      \<lparr>cursor = Suc i + length w, out = (b @ [codeOpeningBracket]) @ w\<rparr> =
      Ok \<lparr>cursor = Suc i + length w, out = (b @ [codeOpeningBracket]) @ w\<rparr>"
    using d2 by (simp add: parseArray_loop_Suc parseArray_loop_body_def charCodeAt_headOf)
  show ?thesis
    using d d2 ws sk lp
    by (simp add: n parseArray_Suc parseArray_body_def charCodeAt_headOf Let_def Nil)
next
  case (Cons e es')
  obtain w1 v w2 where e: "e = Element w1 v w2" by (cases e)
  define tl where "tl = concat (map (\<lambda>y. codeComma # y) (map renderElement es'))"
  define body where "body = renderValue v @ w2 @ tl"
  have wf: "list_all isWhitespace w1" "wfValue v" "list_all isWhitespace w2" "copies (renderValue v)"
    "list_all wfElement es'" "list_all elementCopies es'"
    using assms(2,3) Cons e by (simp_all add: elementCopies_def)
  have rv: "joinComma (map renderElement es) = w1 @ body"
    by (simp add: Cons e joinComma_Cons tl_def body_def)
  have d: "drop i text = codeOpeningBracket # ((w @ w1) @ body @ codeClosingBracket # r)"
    using assms(4) by (simp add: rv)
  have d1: "drop (Suc i) text = (w @ w1) @ body @ codeClosingBracket # r"
    using d by (rule drop_Cons_Suc)
  have d2: "drop (Suc i + length (w @ w1)) text = body @ codeClosingBracket # r"
    using d1 by (rule drop_append_drop)
  have d3: "drop (Suc i + length (w @ w1) + length body) text = codeClosingBracket # r"
    using d2 by (rule drop_append_drop)
  have hx: "headIs valueStart (body @ codeClosingBracket # r)"
    unfolding body_def using renderValue_start [OF wf(2)] by simp
  note vs = valueStart_facts [OF hx]
  obtain m where n: "n = Suc (Suc m)" and m: "2 * length body + 2 \<le> m"
    using assms(5) by (cases n; cases "n - 1") (auto simp: rv)
  have ws: "parseWhitespaceAndSkipComments text \<lparr>cursor = Suc i, out = b @ [codeOpeningBracket]\<rparr> =
      (w @ w1 \<noteq> [], \<lparr>cursor = Suc i + length (w @ w1), out = (b @ [codeOpeningBracket]) @ w @ w1\<rparr>)"
    using _ d1 vs(1,2) by (rule skip_whitespace_to) (simp add: assms(1) wf(1))
  have sk: "skipCharacter text codeComma
      \<lparr>cursor = Suc i + length (w @ w1), out = (b @ [codeOpeningBracket]) @ w @ w1\<rparr> =
      (False, \<lparr>cursor = Suc i + length (w @ w1), out = (b @ [codeOpeningBracket]) @ w @ w1\<rparr>)"
    using d2 vs(6) by (intro skipCharacter_not_at) simp
  have lp: "parseArray_loop (Suc m) text True
      \<lparr>cursor = Suc i + length (w @ w1), out = (b @ [codeOpeningBracket]) @ w @ w1\<rparr> =
      Ok \<lparr>cursor = Suc i + length (w @ w1) + length body,
          out = ((b @ [codeOpeningBracket]) @ w @ w1) @ body\<rparr>"
    using parseArray_loop_first [OF wf(2,4,3,5,6), of "Suc i + length (w @ w1)" "text" r m
        "(b @ [codeOpeningBracket]) @ w @ w1"] d2 m
    by (simp add: body_def tl_def)
  show ?thesis
    using d ws sk lp d3
    by (simp add: n parseArray_Suc parseArray_body_def charCodeAt_headOf Let_def rv add.assoc)
qed

lemma parseValue_array:
  assumes "drop i text = codeOpeningBracket # r"
    "parseArray (Suc n) text \<lparr>cursor = i, out = b\<rparr> = Ok (True, s')"
  shows "parseValue (Suc (Suc n)) text \<lparr>cursor = i, out = b\<rparr> =
           Ok (True, snd (parseWhitespaceAndSkipComments text s'))"
proof -
  have ws: "parseWhitespaceAndSkipComments text \<lparr>cursor = i, out = b\<rparr> =
      (False, \<lparr>cursor = i, out = b\<rparr>)"
    using assms(1) by (intro skip_whitespace_none) (simp_all add: classifier_defs)
  have po: "parseObject (Suc n) text \<lparr>cursor = i, out = b\<rparr> = Ok (False, \<lparr>cursor = i, out = b\<rparr>)"
    using assms(1) by (intro parseObject_none) simp
  show ?thesis
    by (simp add: parseValue_Suc [of "Suc n"] parseValue_body_def ws po assms(2))
qed

lemma copies_array:
  assumes "list_all isWhitespace w0" "list_all wfElement es" "list_all elementCopies es"
  shows "copies (renderValue (JArray w0 es))"
  unfolding copies_def
proof (intro allI impI, elim conjE)
  fix tx b w r and i n :: nat
  assume h: "list_all isWhitespace w" "follows w r" "drop i tx = renderValue (JArray w0 es) @ w @ r"
    "2 * length (renderValue (JArray w0 es)) < n"
  note f = follows_facts [OF h(2)]
  obtain m where n: "n = Suc (Suc m)" and m: "2 * length (renderValue (JArray w0 es)) \<le> Suc m"
    using h(4) by (cases n; cases "n - 1") auto
  have pa: "parseArray (Suc m) tx \<lparr>cursor = i, out = b\<rparr> =
      Ok (True, \<lparr>cursor = i + length (renderValue (JArray w0 es)),
                 out = b @ renderValue (JArray w0 es)\<rparr>)"
    using assms h(3) m by (rule parseArray_valid)
  have d: "drop i tx = codeOpeningBracket # tl (drop i tx)"
    using h(3) by simp
  have ws: "parseWhitespaceAndSkipComments tx
      \<lparr>cursor = i + length (renderValue (JArray w0 es)), out = b @ renderValue (JArray w0 es)\<rparr> =
      (w \<noteq> [], \<lparr>cursor = i + length (renderValue (JArray w0 es)) + length w,
         out = (b @ renderValue (JArray w0 es)) @ w\<rparr>)"
    using h(1) drop_append_drop [OF h(3)] f(1,2) by (rule skip_whitespace_to)
  show "parseValue n tx \<lparr>cursor = i, out = b\<rparr> =
      Ok (True, \<lparr>cursor = i + length (renderValue (JArray w0 es)) + length w,
                 out = b @ renderValue (JArray w0 es) @ w\<rparr>)"
    unfolding n parseValue_array [OF d pa] ws by simp
qed

text \<open>Objects: one member, the members after the first, each behind its comma, and the
  object.\<close>

lemma parseObject_loop_member:
  assumes "list_all wfItem k" "list_all isWhitespace w2" "list_all isWhitespace w3" "wfValue v"
    "copies (renderValue v)" "list_all isWhitespace w4" "valueEnd r"
    "drop i text = pre @ renderString k @ w2 @ codeColon # w3 @ renderValue v @ w4 @ r"
    "if initial then pre = [] else \<exists>w1. pre = codeComma # w1 \<and> list_all isWhitespace w1"
    "length k + 4 \<le> m" "2 * length (renderValue v) < m"
  shows "parseObject_loop (Suc m) text initial \<lparr>cursor = i, out = b\<rparr> =
         parseObject_loop m text False
           \<lparr>cursor = i + length (pre @ renderString k @ w2 @ codeColon # w3 @ renderValue v @ w4),
              out = b @ pre @ renderString k @ w2 @ codeColon # w3 @ renderValue v @ w4\<rparr>"
proof -
  define val where "val = w3 @ renderValue v @ w4 @ r"
  define key where "key = renderString k @ w2 @ codeColon # val"
  have d: "drop i text = pre @ key" using assms(8) by (simp add: key_def val_def)
  obtain kt where kq: "key = codeDoubleQuote # kt" by (simp add: key_def renderString_def)
  have hd: "headOf (drop i text) \<noteq> Some codeClosingBrace" "drop i text \<noteq> []"
    using assms(9) d kq by (cases initial; auto)+
  have lt: "i < length text" using hd(2) by (cases "i < length text") simp_all
  define j where "j = i + length pre"
  have dj: "drop j text = key" unfolding j_def using d by (rule drop_append_drop)
  have dj': "drop j text = renderString k @ w2 @ codeColon # val"
    using dj by (simp add: key_def)
  have s1: "\<not> initial \<Longrightarrow>
      parseCharacter text codeComma \<lparr>cursor = i, out = b\<rparr> =
        (True, \<lparr>cursor = Suc i, out = b @ [codeComma]\<rparr>) \<and>
      parseWhitespaceAndSkipComments text \<lparr>cursor = Suc i, out = b @ [codeComma]\<rparr> =
        (tl pre \<noteq> [], \<lparr>cursor = j, out = b @ pre\<rparr>)"
  proof -
    assume "\<not> initial"
    then obtain w1 where pre: "pre = codeComma # w1" "list_all isWhitespace w1"
      using assms(9) by auto
    have d0: "drop i text = codeComma # (w1 @ key)" using d pre by simp
    have d1: "drop (Suc i) text = w1 @ key" using d0 by (rule drop_Cons_Suc)
    have "parseWhitespaceAndSkipComments text \<lparr>cursor = Suc i, out = b @ [codeComma]\<rparr> =
        (w1 \<noteq> [], \<lparr>cursor = Suc i + length w1, out = (b @ [codeComma]) @ w1\<rparr>)"
      using pre(2) d1 by (rule skip_whitespace_to) (simp_all add: kq classifier_defs)
    then show ?thesis
      using parseCharacter_at [OF d0, of b] by (simp add: pre j_def)
  qed
  have s0: "initial \<Longrightarrow> j = i \<and> pre = []"
    using assms(9) by (simp add: j_def)
  have se: "skipEllipsis text \<lparr>cursor = j, out = b @ pre\<rparr> =
      (False, \<lparr>cursor = j + length ([] :: jstring), out = (b @ pre) @ []\<rparr>)"
    using dj by (intro skipEllipsis_none [where r = key]) (simp_all add: kq classifier_defs)
  obtain m' where m': "m = length k + 4 + m'" using assms(10) by (auto simp: le_iff_add)
  have fo: "follows w2 (codeColon # val)" by (simp add: follows_def valueEnd_def)
  have ps: "parseString m text False \<lparr>cursor = j, out = b @ pre\<rparr> =
      Ok (True, \<lparr>cursor = j + length (renderString k) + length w2,
                 out = (b @ pre) @ renderString k @ w2\<rparr>)"
    unfolding m' using assms(1) dj' assms(2) fo by (rule parseString_whole)
  define j2 where "j2 = j + length (renderString k) + length w2"
  have d2: "drop j2 text = codeColon # val"
    using drop_append_drop [of j "text" "renderString k @ w2" "codeColon # val"] dj'
    by (simp add: j2_def add.assoc)
  have ws: "parseWhitespaceAndSkipComments text \<lparr>cursor = j2, out = (b @ pre) @ renderString k @ w2\<rparr> =
      (False, \<lparr>cursor = j2, out = (b @ pre) @ renderString k @ w2\<rparr>)"
    using d2 by (intro skip_whitespace_none) (simp_all add: classifier_defs)
  note pc = parseCharacter_at [OF d2, of "(b @ pre) @ renderString k @ w2"]
  have d3: "drop (Suc j2) text = w3 @ (renderValue v @ w4 @ r)"
    using drop_Cons_Suc [OF d2] by (simp add: val_def)
  have hx: "headIs valueStart (renderValue v @ w4 @ r)"
    using assms(4) by (rule renderValue_start)
  have "parseValue m text \<lparr>cursor = Suc j2, out = ((b @ pre) @ renderString k @ w2) @ [codeColon]\<rparr> =
      parseValue m text \<lparr>cursor = Suc j2 + length w3,
        out = (((b @ pre) @ renderString k @ w2) @ [codeColon]) @ w3\<rparr>"
    using d3 assms(3) valueStart_facts(1,2) [OF hx] by (rule parseValue_leading)
  also have "\<dots> = Ok (True, \<lparr>cursor = Suc j2 + length w3 + length (renderValue v) + length w4,
      out = ((((b @ pre) @ renderString k @ w2) @ [codeColon]) @ w3) @ renderValue v @ w4\<rparr>)"
    using assms(5,6) follows_valueEnd [OF assms(7)] drop_append_drop [OF d3] assms(11)
    by (rule copiesD)
  finally have pv: "parseValue m text
      \<lparr>cursor = Suc j2, out = ((b @ pre) @ renderString k @ w2) @ [codeColon]\<rparr> =
      Ok (True, \<lparr>cursor = Suc j2 + length w3 + length (renderValue v) + length w4,
      out = ((((b @ pre) @ renderString k @ w2) @ [codeColon]) @ w3) @ renderValue v @ w4\<rparr>)" .
  have "parseObject_loop (Suc m) text initial \<lparr>cursor = i, out = b\<rparr> =
      parseObject_loop m text False
        \<lparr>cursor = Suc j2 + length w3 + length (renderValue v) + length w4,
           out = ((((b @ pre) @ renderString k @ w2) @ [codeColon]) @ w3) @ renderValue v @ w4\<rparr>"
  proof (cases initial)
    case True
    show ?thesis
      using lt hd(1) se ps [folded j2_def] ws pc pv True s0 [OF True]
      by (simp add: parseObject_loop_Suc parseObject_loop_body_def Let_def charCodeAt_headOf)
  next
    case False
    show ?thesis
      using lt hd(1) se ps [folded j2_def] ws pc pv False s1 [OF False]
      by (simp add: parseObject_loop_Suc parseObject_loop_body_def Let_def charCodeAt_headOf)
  qed
  then show ?thesis
    by (simp add: j2_def j_def add.assoc)
qed

lemma parseObject_loop_tail:
  assumes "list_all wfMember ms" "list_all memberCopies ms"
    "drop i text = concat (map (\<lambda>y. codeComma # y) (map renderMember ms)) @ codeClosingBrace # r"
    "2 * length (concat (map (\<lambda>y. codeComma # y) (map renderMember ms))) + 2 \<le> n"
  shows "parseObject_loop n text False \<lparr>cursor = i, out = b\<rparr> =
         Ok \<lparr>cursor = i + length (concat (map (\<lambda>y. codeComma # y) (map renderMember ms))),
             out = b @ concat (map (\<lambda>y. codeComma # y) (map renderMember ms))\<rparr>"
  using assms
proof (induction ms arbitrary: i b n)
  case Nil
  then obtain m where n: "n = Suc m" by (cases n) auto
  show ?case
    using Nil.prems(3) by (simp add: n parseObject_loop_Suc parseObject_loop_body_def reads)
next
  case (Cons mb ms)
  obtain w1 k w2 w3 v w4 where mb: "mb = Member w1 k w2 (Element w3 v w4)"
    by (cases mb; case_tac x4) auto
  define more where "more = concat (map (\<lambda>y. codeComma # y) (map renderMember ms))"
  define x where "x = (codeComma # w1) @ renderString k @ w2 @ codeColon # w3 @ renderValue v @ w4"
  have wf: "list_all isWhitespace w1" "list_all wfItem k" "list_all isWhitespace w2"
    "list_all isWhitespace w3" "wfValue v" "list_all isWhitespace w4" "copies (renderValue v)"
    using Cons.prems(1,2) mb by (simp_all add: memberCopies_def elementCopies_def)
  have lk: "length k \<le> length (renderItems k)"
    by (induction k) (auto simp: less_eq_Suc_le intro: le_trans, (case_tac a; simp)+)
  obtain m where n: "n = Suc m" and m: "length k + 4 \<le> m" "2 * length (renderValue v) < m"
    "2 * length more + 2 \<le> m"
    using Cons.prems(4) mb lk by (cases n) (auto simp: more_def renderString_def)
  have d: "drop i text = (codeComma # w1) @ renderString k @ w2 @ codeColon # w3 @ renderValue v @
      w4 @ (more @ codeClosingBrace # r)"
    using Cons.prems(3) mb by (simp add: more_def)
  have ve: "valueEnd (more @ codeClosingBrace # r)"
    by (cases ms) (simp_all add: more_def valueEnd_def)
  have 1: "parseObject_loop (Suc m) text False \<lparr>cursor = i, out = b\<rparr> =
      parseObject_loop m text False \<lparr>cursor = i + length x, out = b @ x\<rparr>"
    unfolding x_def
    using wf(2,3,4,5,7,6) ve d _ m(1,2) by (rule parseObject_loop_member) (simp add: wf(1))
  have d2: "drop (i + length x) text = more @ codeClosingBrace # r"
    using drop_append_drop [of i "text" x "more @ codeClosingBrace # r"] d by (simp add: x_def)
  have ih: "parseObject_loop m text False \<lparr>cursor = i + length x, out = b @ x\<rparr> =
      Ok \<lparr>cursor = i + length x + length more, out = (b @ x) @ more\<rparr>"
    unfolding more_def using Cons.prems(1,2) d2 m(3) by (intro Cons.IH) (simp_all add: more_def)
  show ?case
    unfolding n 1 ih by (simp add: mb x_def more_def)
qed

lemma parseObject_valid:
  assumes "list_all isWhitespace w" "list_all wfMember ms" "list_all memberCopies ms"
    "drop i text = renderValue (JObject w ms) @ r"
    "2 * length (renderValue (JObject w ms)) \<le> n"
  shows "parseObject n text \<lparr>cursor = i, out = b\<rparr> =
         Ok (True, \<lparr>cursor = i + length (renderValue (JObject w ms)),
                    out = b @ renderValue (JObject w ms)\<rparr>)"
proof (cases ms)
  case Nil
  have d: "drop i text = codeOpeningBrace # (w @ codeClosingBrace # r)"
    using assms(4) Nil by simp
  have d1: "drop (Suc i) text = w @ codeClosingBrace # r" using d by (rule drop_Cons_Suc)
  have d2: "drop (Suc i + length w) text = codeClosingBrace # r"
    using d1 by (rule drop_append_drop)
  obtain m where n: "n = Suc (Suc m)" using assms(5) by (cases n; cases "n - 1") auto
  have ws: "parseWhitespaceAndSkipComments text \<lparr>cursor = Suc i, out = b @ [codeOpeningBrace]\<rparr> =
      (w \<noteq> [], \<lparr>cursor = Suc i + length w, out = (b @ [codeOpeningBrace]) @ w\<rparr>)"
    using assms(1) d1 by (rule skip_whitespace_to) (simp_all add: classifier_defs)
  have sk: "skipCharacter text codeComma
      \<lparr>cursor = Suc i + length w, out = (b @ [codeOpeningBrace]) @ w\<rparr> =
      (False, \<lparr>cursor = Suc i + length w, out = (b @ [codeOpeningBrace]) @ w\<rparr>)"
    using d2 by (intro skipCharacter_not_at) simp
  have lp: "parseObject_loop (Suc m) text True
      \<lparr>cursor = Suc i + length w, out = (b @ [codeOpeningBrace]) @ w\<rparr> =
      Ok \<lparr>cursor = Suc i + length w, out = (b @ [codeOpeningBrace]) @ w\<rparr>"
    using d2 by (simp add: parseObject_loop_Suc parseObject_loop_body_def charCodeAt_headOf)
  show ?thesis
    using d d2 ws sk lp
    by (simp add: n parseObject_Suc parseObject_body_def charCodeAt_headOf Let_def Nil)
next
  case (Cons mb ms')
  obtain w1 k w2 w3 v w4 where mb: "mb = Member w1 k w2 (Element w3 v w4)"
    by (cases mb; case_tac x4) auto
  define more where "more = concat (map (\<lambda>y. codeComma # y) (map renderMember ms'))"
  define x where "x = renderString k @ w2 @ codeColon # w3 @ renderValue v @ w4"
  have wf: "list_all isWhitespace w1" "list_all wfItem k" "list_all isWhitespace w2"
    "list_all isWhitespace w3" "wfValue v" "list_all isWhitespace w4" "copies (renderValue v)"
    "list_all wfMember ms'" "list_all memberCopies ms'"
    using assms(2,3) Cons mb by (simp_all add: memberCopies_def elementCopies_def)
  have rv: "joinComma (map renderMember ms) = w1 @ x @ more"
    by (simp add: Cons mb joinComma_Cons more_def x_def)
  have d: "drop i text = codeOpeningBrace # ((w @ w1) @ x @ more @ codeClosingBrace # r)"
    using assms(4) by (simp add: rv)
  have d1: "drop (Suc i) text = (w @ w1) @ x @ more @ codeClosingBrace # r"
    using d by (rule drop_Cons_Suc)
  have d2: "drop (Suc i + length (w @ w1)) text = x @ more @ codeClosingBrace # r"
    using d1 by (rule drop_append_drop)
  have d2': "drop (Suc i + length (w @ w1)) text =
      [] @ renderString k @ w2 @ codeColon # w3 @ renderValue v @ w4 @ (more @ codeClosingBrace # r)"
    using d2 by (simp add: x_def)
  have d3: "drop (Suc i + length (w @ w1) + length x) text = more @ codeClosingBrace # r"
    using d2 by (rule drop_append_drop)
  have d4: "drop (Suc i + length (w @ w1) + length x + length more) text = codeClosingBrace # r"
    using d3 by (rule drop_append_drop)
  obtain xt where xq: "x = codeDoubleQuote # xt" by (simp add: x_def renderString_def)
  have lk: "length k \<le> length (renderItems k)"
    by (induction k) (auto simp: less_eq_Suc_le intro: le_trans, (case_tac a; simp)+)
  obtain m where n: "n = Suc (Suc m)" and m: "length k + 4 \<le> m" "2 * length (renderValue v) < m"
    "2 * length more + 2 \<le> m"
    using assms(5) lk by (cases n; cases "n - 1") (auto simp: rv x_def renderString_def)
  have ws: "parseWhitespaceAndSkipComments text \<lparr>cursor = Suc i, out = b @ [codeOpeningBrace]\<rparr> =
      (w @ w1 \<noteq> [], \<lparr>cursor = Suc i + length (w @ w1), out = (b @ [codeOpeningBrace]) @ w @ w1\<rparr>)"
    using _ d1 by (rule skip_whitespace_to)
      (simp add: assms(1) wf(1), (subst xq, simp add: classifier_defs)+)
  have sk: "skipCharacter text codeComma
      \<lparr>cursor = Suc i + length (w @ w1), out = (b @ [codeOpeningBrace]) @ w @ w1\<rparr> =
      (False, \<lparr>cursor = Suc i + length (w @ w1), out = (b @ [codeOpeningBrace]) @ w @ w1\<rparr>)"
    using d2 by (intro skipCharacter_not_at) (subst (asm) xq, simp)
  have ve: "valueEnd (more @ codeClosingBrace # r)"
    by (cases ms') (simp_all add: more_def valueEnd_def)
  have 1: "parseObject_loop (Suc m) text True
      \<lparr>cursor = Suc i + length (w @ w1), out = (b @ [codeOpeningBrace]) @ w @ w1\<rparr> =
      parseObject_loop m text False
        \<lparr>cursor = Suc i + length (w @ w1) + length x, out = ((b @ [codeOpeningBrace]) @ w @ w1) @ x\<rparr>"
    using parseObject_loop_member [OF wf(2,3,4,5,7,6) ve d2' _ m(1,2), of True
        "(b @ [codeOpeningBrace]) @ w @ w1"]
    by (simp add: x_def)
  have 2: "parseObject_loop m text False
        \<lparr>cursor = Suc i + length (w @ w1) + length x, out = ((b @ [codeOpeningBrace]) @ w @ w1) @ x\<rparr> =
      Ok \<lparr>cursor = Suc i + length (w @ w1) + length x + length more,
          out = (((b @ [codeOpeningBrace]) @ w @ w1) @ x) @ more\<rparr>"
    unfolding more_def using wf(8,9) d3 m(3)
    by (intro parseObject_loop_tail [where r = r]) (simp_all add: more_def)
  note lp = 1 [unfolded 2]
  show ?thesis
    using d ws sk d4 lp
    by (simp add: n parseObject_Suc parseObject_body_def charCodeAt_headOf Let_def rv add.assoc)
qed

lemma parseValue_object:
  assumes "drop i text = codeOpeningBrace # r"
    "parseObject n text \<lparr>cursor = i, out = b\<rparr> = Ok (True, s')"
  shows "parseValue (Suc n) text \<lparr>cursor = i, out = b\<rparr> =
           Ok (True, snd (parseWhitespaceAndSkipComments text s'))"
proof -
  have ws: "parseWhitespaceAndSkipComments text \<lparr>cursor = i, out = b\<rparr> =
      (False, \<lparr>cursor = i, out = b\<rparr>)"
    using assms(1) by (intro skip_whitespace_none) (simp_all add: classifier_defs)
  show ?thesis
    by (simp add: parseValue_Suc parseValue_body_def ws assms(2))
qed

lemma copies_object:
  assumes "list_all isWhitespace w0" "list_all wfMember ms" "list_all memberCopies ms"
  shows "copies (renderValue (JObject w0 ms))"
  unfolding copies_def
proof (intro allI impI, elim conjE)
  fix tx b w r and i n :: nat
  assume h: "list_all isWhitespace w" "follows w r" "drop i tx = renderValue (JObject w0 ms) @ w @ r"
    "2 * length (renderValue (JObject w0 ms)) < n"
  note f = follows_facts [OF h(2)]
  obtain m where n: "n = Suc m" and m: "2 * length (renderValue (JObject w0 ms)) \<le> m"
    using h(4) by (cases n) auto
  have pa: "parseObject m tx \<lparr>cursor = i, out = b\<rparr> =
      Ok (True, \<lparr>cursor = i + length (renderValue (JObject w0 ms)),
                 out = b @ renderValue (JObject w0 ms)\<rparr>)"
    using assms h(3) m by (rule parseObject_valid)
  have d: "drop i tx = codeOpeningBrace # tl (drop i tx)"
    using h(3) by simp
  have ws: "parseWhitespaceAndSkipComments tx
      \<lparr>cursor = i + length (renderValue (JObject w0 ms)), out = b @ renderValue (JObject w0 ms)\<rparr> =
      (w \<noteq> [], \<lparr>cursor = i + length (renderValue (JObject w0 ms)) + length w,
         out = (b @ renderValue (JObject w0 ms)) @ w\<rparr>)"
    using h(1) drop_append_drop [OF h(3)] f(1,2) by (rule skip_whitespace_to)
  show "parseValue n tx \<lparr>cursor = i, out = b\<rparr> =
      Ok (True, \<lparr>cursor = i + length (renderValue (JObject w0 ms)) + length w,
                 out = b @ renderValue (JObject w0 ms) @ w\<rparr>)"
    unfolding n parseValue_object [OF d pa] ws by simp
qed

text \<open>\<open>parseValue\<close> copies every value of JSON.\<close>

lemma copies_json:
  shows "wfValue v \<Longrightarrow> copies (renderValue v)"
    and "wfElement e \<Longrightarrow> elementCopies e"
    and "wfMember m \<Longrightarrow> memberCopies m"
proof (induction v and e and m)
  case (JArray w es)
  then have "list_all elementCopies es"
    by (simp add: list_all_iff)
  then show ?case
    using JArray.prems by (intro copies_array) simp_all
next
  case (JObject w ms)
  then have "list_all memberCopies ms"
    by (simp add: list_all_iff)
  then show ?case
    using JObject.prems by (intro copies_object) simp_all
qed (simp_all add: copies_null copies_true copies_false copies_number copies_string
    elementCopies_def memberCopies_def)

lemma jsonrepair_json:
  assumes "wfElement e" "2 * length (renderElement e) < n"
  shows "jsonrepair n (renderElement e) = Ok (renderElement e)"
proof -
  obtain w1 v w2 where e: "e = Element w1 v w2" by (cases e)
  have wf: "list_all isWhitespace w1" "wfValue v" "list_all isWhitespace w2"
    using assms(1) e by simp_all
  have hv: "headIs valueStart (renderValue v)"
    using renderValue_start [OF wf(2), of "[]"] by simp
  have c: "copies (w1 @ renderValue v)"
    using copies_json(1) [OF wf(2)] wf(1) hv by (rule copies_leading)
  have "parseValue n (renderElement e) \<lparr>cursor = 0, out = []\<rparr> =
      Ok (True, \<lparr>cursor = 0 + length (w1 @ renderValue v) + length w2,
                 out = [] @ (w1 @ renderValue v) @ w2\<rparr>)"
    using c wf(3) follows_valueEnd [of "[]" w2] _ _
    by (rule copiesD) (use assms(2) e in \<open>simp_all add: valueEnd_def\<close>)
  then show ?thesis
    using jsonrepair_at_end [of n "renderElement e"] by (simp add: e)
qed

section \<open>Values of JSON one after the other\<close>

lemma valueStart_isStartOfValue: "valueStart c \<Longrightarrow> isStartOfValue c"
  by (auto simp: valueStart_def isStartOfValue_def isWordCharacter_def isDigit_def isQuote_def
      isDoubleQuoteLike_def)

lemma renderValue_last:
  assumes "wfValue v"
  shows "renderValue v \<noteq> [] \<and> \<not> isWhitespace (last (renderValue v))"
proof (cases v)
  case (JNumber sg ds fs em es)
  have d: "list_all isDigit xs \<Longrightarrow> xs \<noteq> [] \<Longrightarrow> \<not> isWhitespace (last xs)" for xs
    using digit_facts [of "last xs"] by (auto simp: list_all_iff)
  have wf: "ds \<noteq> []" "list_all isDigit ds" "list_all isDigit fs"
    using assms JNumber by (simp_all add: wfNumber_def)
  show ?thesis
  proof (cases "em = []")
    case True
    then have "es = []" using assms JNumber by (simp add: wfNumber_def)
    then show ?thesis
      using True JNumber wf d [of ds] d [of fs] by (simp add: renderNumber_def)
  next
    case False
    then have "es \<noteq> []" "list_all isDigit es" using assms JNumber by (simp_all add: wfNumber_def)
    then show ?thesis
      using JNumber d [of es] by (simp add: renderNumber_def)
  qed
qed (simp_all add: js_def renderString_def isWhitespace_def)

lemma insertBeforeLastWhitespace_behind:
  assumes "a \<noteq> []" "\<not> isWhitespace (last a)" "list_all isWhitespace w"
  shows "insertBeforeLastWhitespace (a @ w) t = a @ t @ w"
proof -
  have "takeWhile isWhitespace (rev a) = []"
    using assms(1,2) by (cases "rev a") (auto simp: last_rev [symmetric] hd_rev)
  moreover have "takeWhile isWhitespace (rev w @ rev a) = rev w @ takeWhile isWhitespace (rev a)"
    using assms(3) by (intro takeWhile_append2) (simp add: list_all_iff)
  ultimately have "takeWhile isWhitespace (rev (a @ w)) = rev w"
    by simp
  then show ?thesis
    by (simp add: insertBeforeLastWhitespace_def)
qed

lemma endsWithCommaOrNewline_comma:
  "list_all isWhitespace w \<Longrightarrow> endsWithCommaOrNewline (a @ codeComma # w)"
proof (induction w rule: rev_induct)
  case Nil
  then show ?case by (simp add: endsWithCommaOrNewline_def)
next
  case (snoc x w)
  then show ?case
    by (auto simp: endsWithCommaOrNewline_def isWhitespace_def)
qed

lemma endsWithCommaOrNewline_append:
  "endsWithCommaOrNewline w \<Longrightarrow> endsWithCommaOrNewline (a @ w)"
proof (induction w rule: rev_induct)
  case Nil
  then show ?case by (simp add: endsWithCommaOrNewline_def)
next
  case (snoc x w)
  then show ?case
    by (auto simp: endsWithCommaOrNewline_def split: if_splits)
qed

lemma stripLastOccurrence_keep:
  "c \<notin> set w \<Longrightarrow> stripLastOccurrence (a @ c # w) c False = a @ w"
  by (simp add: stripLastOccurrence_def lastIndexOf_last)

lemma whitespace_no_comma: "list_all isWhitespace w \<Longrightarrow> codeComma \<notin> set w"
  by (auto simp: list_all_iff isWhitespace_def)

lemma ndjson_loop_next:
  "parseNewlineDelimitedJSON_loop (Suc m) text False s =
   parseNewlineDelimitedJSON_loop (Suc m) text True
     (if fst (parseCharacter text codeComma s) then snd (parseCharacter text codeComma s)
      else (snd (parseCharacter text codeComma s))
             \<lparr>out := insertBeforeLastWhitespace (out (snd (parseCharacter text codeComma s)))
                       [codeComma]\<rparr>)"
  by (simp add: Let_def)


lemma ndjson_loop_first:
  "parseNewlineDelimitedJSON_loop (Suc m) text True s =
     (case parseValue m text s of
        OutOfFuel \<Rightarrow> OutOfFuel
      | Throw e \<Rightarrow> Throw e
      | Ok (processedValue, s2) \<Rightarrow>
          if processedValue then parseNewlineDelimitedJSON_loop m text False s2 else Ok s2)"
  by simp

text \<open>The loop of \<open>parseNewlineDelimitedJSON\<close> from a value on, to the end of the text.\<close>

lemma ndjson_loop:
  assumes "list_all isWhitespace w0" "wfValue v" "list_all wfLine ls" "list_all isWhitespace w"
    "drop i text = w0 @ renderValue v @ concat (map renderLine ls) @ w"
    "2 * length (w0 @ renderValue v @ concat (map renderLine ls) @ w) + 4 \<le> n"
  shows "parseNewlineDelimitedJSON_loop n text True \<lparr>cursor = i, out = b\<rparr> =
         Ok \<lparr>cursor = length text,
             out = b @ w0 @ renderValue v @ concat (map repairedLine ls) @ [codeComma] @ w\<rparr>"
  using assms
proof (induction ls arbitrary: w0 v i b n)
  case Nil
  have hv: "headIs valueStart (renderValue v)"
    using renderValue_start [OF Nil.prems(2), of "[]"] by simp
  have c: "copies (w0 @ renderValue v)"
    using copies_json(1) [OF Nil.prems(2)] Nil.prems(1) hv by (rule copies_leading)
  obtain m where n: "n = Suc (Suc (Suc (Suc m)))" and m: "2 * length (w0 @ renderValue v) < Suc (Suc (Suc m))"
    using Nil.prems(6) by (auto simp: le_iff_add numeral_eq_Suc)
  have d: "drop i text = (w0 @ renderValue v) @ w @ []" using Nil.prems(5) by simp
  have len: "length text = i + length (w0 @ renderValue v) + length w"
  proof -
    have "length (drop i text) = length (w0 @ renderValue v) + length w" by (simp add: d)
    moreover have "i < length text"
      using d hv by (cases "i < length text"; cases "renderValue v") simp_all
    ultimately show ?thesis by simp
  qed
  have pv: "parseValue (Suc (Suc (Suc m))) text \<lparr>cursor = i, out = b\<rparr> =
      Ok (True, \<lparr>cursor = length text, out = b @ (w0 @ renderValue v) @ w\<rparr>)"
    unfolding len
    using c Nil.prems(4) follows_valueEnd [of "[]" w] d m
    by (rule copiesD) (simp add: valueEnd_def)
  have pc: "parseCharacter text codeComma \<lparr>cursor = length text, out = b @ (w0 @ renderValue v) @ w\<rparr> =
      (False, \<lparr>cursor = length text, out = b @ (w0 @ renderValue v) @ w\<rparr>)"
    by (intro parseCharacter_not_at) simp
  have ins: "insertBeforeLastWhitespace (b @ (w0 @ renderValue v) @ w) [codeComma] =
      (b @ w0 @ renderValue v) @ [codeComma] @ w"
    using insertBeforeLastWhitespace_behind [of "b @ w0 @ renderValue v" w "[codeComma]"]
      renderValue_last [OF Nil.prems(2)] Nil.prems(4) by simp
  have pe: "parseValue (Suc (Suc m)) text
      \<lparr>cursor = length text, out = (b @ w0 @ renderValue v) @ [codeComma] @ w\<rparr> =
      Ok (False, \<lparr>cursor = length text, out = (b @ w0 @ renderValue v) @ [codeComma] @ w\<rparr>)"
    by (intro parseValue_at_end) simp
  have 1: "parseNewlineDelimitedJSON_loop (Suc (Suc (Suc (Suc m)))) text True \<lparr>cursor = i, out = b\<rparr> =
      parseNewlineDelimitedJSON_loop (Suc (Suc (Suc m))) text False
        \<lparr>cursor = length text, out = b @ (w0 @ renderValue v) @ w\<rparr>"
    using pv by (simp add: ndjson_loop_first del: parseNewlineDelimitedJSON_loop.simps)
  have 2: "parseNewlineDelimitedJSON_loop (Suc (Suc (Suc m))) text False
        \<lparr>cursor = length text, out = b @ (w0 @ renderValue v) @ w\<rparr> =
      parseNewlineDelimitedJSON_loop (Suc (Suc (Suc m))) text True
        \<lparr>cursor = length text, out = (b @ w0 @ renderValue v) @ [codeComma] @ w\<rparr>"
    using pc ins by (simp add: ndjson_loop_next del: parseNewlineDelimitedJSON_loop.simps)
  have 3: "parseNewlineDelimitedJSON_loop (Suc (Suc (Suc m))) text True
        \<lparr>cursor = length text, out = (b @ w0 @ renderValue v) @ [codeComma] @ w\<rparr> =
      Ok \<lparr>cursor = length text, out = (b @ w0 @ renderValue v) @ [codeComma] @ w\<rparr>"
    using pe by (simp add: ndjson_loop_first del: parseNewlineDelimitedJSON_loop.simps)
  show ?case
    unfolding n 1 2 3 by simp
next
  case (Cons l ls)
  obtain w1 c w2 v' where l: "l = Line w1 c w2 v'" by (cases l)
  have wf: "list_all isWhitespace w1" "list_all isWhitespace w2" "wfValue v'"
    "c \<or> (w1 = [] \<and> w2 \<noteq> [] \<and> headIs lineStart (renderValue v'))" "list_all wfLine ls"
    using Cons.prems(3) l by simp_all
  define rest where "rest = renderValue v' @ concat (map renderLine ls) @ w"
  define rep where "rep = renderValue v' @ concat (map repairedLine ls) @ [codeComma] @ w"
  have hv: "headIs valueStart (renderValue v)"
    using renderValue_start [OF Cons.prems(2), of "[]"] by simp
  have hv': "headIs valueStart rest"
    unfolding rest_def using wf(3) by (rule renderValue_start)
  have cp: "copies (w0 @ renderValue v)"
    using copies_json(1) [OF Cons.prems(2)] Cons.prems(1) hv by (rule copies_leading)
  obtain k where lv: "length (renderValue v) = Suc k"
    using renderValue_last [OF Cons.prems(2)] by (cases "renderValue v") auto
  obtain m where n: "n = Suc (Suc m)" and m: "2 * length (w0 @ renderValue v) < Suc m"
    "2 * length (w2 @ rest) + 4 \<le> Suc m"
    using Cons.prems(6) l lv by (cases n; cases "n - 1") (auto simp: rest_def)
  show ?case
  proof (cases c)
    case True
    have d: "drop i text = (w0 @ renderValue v) @ w1 @ (codeComma # w2 @ rest)"
      using Cons.prems(5) l True by (simp add: rest_def)
    define j where "j = i + length (w0 @ renderValue v) + length w1"
    have dj: "drop j text = codeComma # (w2 @ rest)"
      using drop_append_drop [of i "text" "(w0 @ renderValue v) @ w1" "codeComma # w2 @ rest"] d
      by (simp add: j_def add.assoc)
    have pv: "parseValue (Suc m) text \<lparr>cursor = i, out = b\<rparr> =
        Ok (True, \<lparr>cursor = j, out = b @ (w0 @ renderValue v) @ w1\<rparr>)"
      unfolding j_def
      using cp wf(1) follows_valueEnd [of "codeComma # w2 @ rest" w1] d m(1)
      by (rule copiesD) (simp add: valueEnd_def)
    note pc = parseCharacter_at [OF dj, of "b @ (w0 @ renderValue v) @ w1"]
    have ih: "parseNewlineDelimitedJSON_loop (Suc m) text True
        \<lparr>cursor = Suc j, out = (b @ (w0 @ renderValue v) @ w1) @ [codeComma]\<rparr> =
        Ok \<lparr>cursor = length text,
            out = ((b @ (w0 @ renderValue v) @ w1) @ [codeComma]) @ w2 @ renderValue v' @
              concat (map repairedLine ls) @ [codeComma] @ w\<rparr>"
      using wf(2,3,5) Cons.prems(4) drop_Cons_Suc [OF dj] m(2)
      by (intro Cons.IH) (simp_all add: rest_def)
    have 1: "parseNewlineDelimitedJSON_loop (Suc (Suc m)) text True \<lparr>cursor = i, out = b\<rparr> =
        parseNewlineDelimitedJSON_loop (Suc m) text False
          \<lparr>cursor = j, out = b @ (w0 @ renderValue v) @ w1\<rparr>"
      using pv by (simp add: ndjson_loop_first del: parseNewlineDelimitedJSON_loop.simps)
    have 2: "parseNewlineDelimitedJSON_loop (Suc m) text False
          \<lparr>cursor = j, out = b @ (w0 @ renderValue v) @ w1\<rparr> =
        parseNewlineDelimitedJSON_loop (Suc m) text True
          \<lparr>cursor = Suc j, out = (b @ (w0 @ renderValue v) @ w1) @ [codeComma]\<rparr>"
      using pc by (simp add: ndjson_loop_next del: parseNewlineDelimitedJSON_loop.simps)
    show ?thesis
      unfolding n 1 2 ih by (simp add: l True)
  next
    case False
    then have nc: "w1 = []" "w2 \<noteq> []" "headIs lineStart (renderValue v')"
      using wf(4) by simp_all
    have ls: "headIs lineStart rest"
      using nc(3) by (cases "renderValue v'") (simp_all add: rest_def)
    have d: "drop i text = (w0 @ renderValue v) @ w2 @ rest"
      using Cons.prems(5) l False nc by (simp add: rest_def)
    define j where "j = i + length (w0 @ renderValue v) + length w2"
    have dj: "drop j text = rest"
      using drop_append_drop [of i "text" "(w0 @ renderValue v) @ w2" rest] d
      by (simp add: j_def add.assoc)
    have fo: "follows w2 rest" using nc(2) ls by (simp add: follows_def)
    have pv: "parseValue (Suc m) text \<lparr>cursor = i, out = b\<rparr> =
        Ok (True, \<lparr>cursor = j, out = b @ (w0 @ renderValue v) @ w2\<rparr>)"
      unfolding j_def using cp wf(2) fo d m(1) by (rule copiesD)
    have pc: "parseCharacter text codeComma \<lparr>cursor = j, out = b @ (w0 @ renderValue v) @ w2\<rparr> =
        (False, \<lparr>cursor = j, out = b @ (w0 @ renderValue v) @ w2\<rparr>)"
      using dj valueStart_facts(6) [OF hv'] by (intro parseCharacter_not_at) simp
    have ins: "insertBeforeLastWhitespace (b @ (w0 @ renderValue v) @ w2) [codeComma] =
        (b @ w0 @ renderValue v) @ [codeComma] @ w2"
      using insertBeforeLastWhitespace_behind [of "b @ w0 @ renderValue v" w2 "[codeComma]"]
        renderValue_last [OF Cons.prems(2)] wf(2) by simp
    have ih: "parseNewlineDelimitedJSON_loop (Suc m) text True
        \<lparr>cursor = j, out = (b @ w0 @ renderValue v) @ [codeComma] @ w2\<rparr> =
        Ok \<lparr>cursor = length text,
            out = ((b @ w0 @ renderValue v) @ [codeComma] @ w2) @ [] @ renderValue v' @
              concat (map repairedLine ls) @ [codeComma] @ w\<rparr>"
      using _ wf(3,5) Cons.prems(4) _ _
      by (rule Cons.IH) (use dj m(2) in \<open>simp_all add: rest_def\<close>)
    have 1: "parseNewlineDelimitedJSON_loop (Suc (Suc m)) text True \<lparr>cursor = i, out = b\<rparr> =
        parseNewlineDelimitedJSON_loop (Suc m) text False
          \<lparr>cursor = j, out = b @ (w0 @ renderValue v) @ w2\<rparr>"
      using pv by (simp add: ndjson_loop_first del: parseNewlineDelimitedJSON_loop.simps)
    have 2: "parseNewlineDelimitedJSON_loop (Suc m) text False
          \<lparr>cursor = j, out = b @ (w0 @ renderValue v) @ w2\<rparr> =
        parseNewlineDelimitedJSON_loop (Suc m) text True
          \<lparr>cursor = j, out = (b @ w0 @ renderValue v) @ [codeComma] @ w2\<rparr>"
      using pc ins by (simp add: ndjson_loop_next del: parseNewlineDelimitedJSON_loop.simps)
    show ?thesis
      unfolding n 1 2 ih by (simp add: l False nc)
  qed
qed


lemma parseNewlineDelimitedJSON_lines:
  assumes "wfValue v" "list_all wfLine ls" "list_all isWhitespace w"
    "drop i text = renderValue v @ concat (map renderLine ls) @ w"
    "2 * length (renderValue v @ concat (map renderLine ls) @ w) + 4 \<le> n"
  shows "parseNewlineDelimitedJSON n text \<lparr>cursor = i, out = b\<rparr> =
         Ok \<lparr>cursor = length text,
             out = [codeOpeningBracket, codeNewline] @
               (b @ renderValue v @ concat (map repairedLine ls) @ w) @
               [codeNewline, codeClosingBracket]\<rparr>"
proof -
  have lp: "parseNewlineDelimitedJSON_loop n text True \<lparr>cursor = i, out = b\<rparr> =
      Ok \<lparr>cursor = length text,
          out = b @ [] @ renderValue v @ concat (map repairedLine ls) @ [codeComma] @ w\<rparr>"
    using _ assms(1,2,3) _ _ by (rule ndjson_loop) (use assms(4,5) in simp_all)
  have st: "stripLastOccurrence
      ((b @ renderValue v @ concat (map repairedLine ls)) @ codeComma # w) codeComma False =
      (b @ renderValue v @ concat (map repairedLine ls)) @ w"
    using whitespace_no_comma [OF assms(3)] by (rule stripLastOccurrence_keep)
  show ?thesis
    using st by (simp add: parseNewlineDelimitedJSON_def lp)
qed

lemma jsonrepair_ndjson:
  assumes "wfValue v" "wfLine l" "startsList l" "list_all wfLine ls" "list_all isWhitespace w"
    "2 * length (renderValue v @ concat (map renderLine (l # ls)) @ w) + 4 \<le> n"
  shows "jsonrepair n (renderValue v @ concat (map renderLine (l # ls)) @ w) =
         Ok ([codeOpeningBracket, codeNewline] @
             renderValue v @ concat (map repairedLine (l # ls)) @ w @
             [codeNewline, codeClosingBracket])"
proof -
  obtain w1 c w2 v' where l: "l = Line w1 c w2 v'" by (cases l)
  have wf: "list_all isWhitespace w1" "list_all isWhitespace w2" "wfValue v'"
    "c \<or> (w1 = [] \<and> w2 \<noteq> [] \<and> headIs lineStart (renderValue v'))"
    "c \<or> endsWithCommaOrNewline w2"
    using assms(2,3) l by simp_all
  define rest where "rest = renderValue v' @ concat (map renderLine ls) @ w"
  define tx where "tx = renderValue v @ concat (map renderLine (l # ls)) @ w"
  have hv': "headIs valueStart rest"
    unfolding rest_def using wf(3) by (rule renderValue_start)
  note vs = valueStart_facts [OF hv']
  have sv: "headIs isStartOfValue rest"
    using hv' by (cases rest) (simp_all add: valueStart_isStartOfValue)
  note cp = copies_json(1) [OF assms(1)]
  have n: "2 * length (renderValue v) < n" "2 * length rest + 4 \<le> n"
    using assms(6) l by (simp_all add: rest_def)
  have fin: "jsonrepair_loop tx \<lparr>cursor = length tx, out = x\<rparr> = \<lparr>cursor = length tx, out = x\<rparr>" for x
    by (rule jsonrepair_loop_at_end) simp
  show ?thesis
  proof (cases c)
    case True
    have d: "drop 0 tx = renderValue v @ w1 @ (codeComma # w2 @ rest)"
      by (simp add: tx_def l True rest_def)
    define j where "j = 0 + length (renderValue v) + length w1"
    have dj: "drop j tx = codeComma # (w2 @ rest)"
      using drop_append_drop [of 0 tx "renderValue v @ w1" "codeComma # w2 @ rest"] d
      by (simp add: j_def)
    have pv: "parseValue n tx \<lparr>cursor = 0, out = []\<rparr> =
        Ok (True, \<lparr>cursor = j, out = [] @ renderValue v @ w1\<rparr>)"
      unfolding j_def
      using cp wf(1) follows_valueEnd [of "codeComma # w2 @ rest" w1] d n(1)
      by (rule copiesD) (simp add: valueEnd_def)
    note pc = parseCharacter_at [OF dj, of "[] @ renderValue v @ w1"]
    have ws: "parseWhitespaceAndSkipComments tx
        \<lparr>cursor = Suc j, out = ([] @ renderValue v @ w1) @ [codeComma]\<rparr> =
        (w2 \<noteq> [], \<lparr>cursor = Suc j + length w2, out = (([] @ renderValue v @ w1) @ [codeComma]) @ w2\<rparr>)"
      using wf(2) drop_Cons_Suc [OF dj] vs(1,2) by (rule skip_whitespace_to)
    have dr: "drop (Suc j + length w2) tx = rest"
      using drop_append_drop [OF drop_Cons_Suc [OF dj]] .
    have e: "endsWithCommaOrNewline ((([] @ renderValue v @ w1) @ [codeComma]) @ w2)"
      using endsWithCommaOrNewline_comma [OF wf(2), of "renderValue v @ w1"] by simp
    have nd: "parseNewlineDelimitedJSON n tx
        \<lparr>cursor = Suc j + length w2, out = (([] @ renderValue v @ w1) @ [codeComma]) @ w2\<rparr> =
        Ok \<lparr>cursor = length tx,
            out = [codeOpeningBracket, codeNewline] @
              (((([] @ renderValue v @ w1) @ [codeComma]) @ w2) @ renderValue v' @
                 concat (map repairedLine ls) @ w) @ [codeNewline, codeClosingBracket]\<rparr>"
      using wf(3) assms(4,5) _ _
      by (rule parseNewlineDelimitedJSON_lines) (use dr n(2) in \<open>simp_all add: rest_def\<close>)
    have "jsonrepair n tx = Ok ([codeOpeningBracket, codeNewline] @
             renderValue v @ concat (map repairedLine (l # ls)) @ w @
             [codeNewline, codeClosingBracket])"
      using pv pc ws dr sv e nd fin
      by (simp add: jsonrepair_def Let_def atIndex_headIs l True)
    then show ?thesis by (simp add: tx_def)
  next
    case False
    then have nc: "w1 = []" "w2 \<noteq> []" "headIs lineStart (renderValue v')"
      "endsWithCommaOrNewline w2"
      using wf(4,5) by simp_all
    have ls: "headIs lineStart rest"
      using nc(3) by (cases "renderValue v'") (simp_all add: rest_def)
    have d: "drop 0 tx = renderValue v @ w2 @ rest"
      by (simp add: tx_def l False nc rest_def)
    define j where "j = 0 + length (renderValue v) + length w2"
    have dj: "drop j tx = rest"
      using drop_append_drop [of 0 tx "renderValue v @ w2" rest] d by (simp add: j_def)
    have fo: "follows w2 rest" using nc(2) ls by (simp add: follows_def)
    have pv: "parseValue n tx \<lparr>cursor = 0, out = []\<rparr> =
        Ok (True, \<lparr>cursor = j, out = [] @ renderValue v @ w2\<rparr>)"
      unfolding j_def using cp wf(2) fo d n(1) by (rule copiesD)
    have pc: "parseCharacter tx codeComma \<lparr>cursor = j, out = [] @ renderValue v @ w2\<rparr> =
        (False, \<lparr>cursor = j, out = [] @ renderValue v @ w2\<rparr>)"
      using dj vs(6) by (intro parseCharacter_not_at) simp
    have e: "endsWithCommaOrNewline ([] @ renderValue v @ w2)"
      using endsWithCommaOrNewline_append [OF nc(4), of "renderValue v"] by simp
    have ins: "insertBeforeLastWhitespace ([] @ renderValue v @ w2) [codeComma] =
        renderValue v @ [codeComma] @ w2"
      using insertBeforeLastWhitespace_behind [of "renderValue v" w2 "[codeComma]"]
        renderValue_last [OF assms(1)] wf(2) by simp
    have nd: "parseNewlineDelimitedJSON n tx
        \<lparr>cursor = j, out = renderValue v @ [codeComma] @ w2\<rparr> =
        Ok \<lparr>cursor = length tx,
            out = [codeOpeningBracket, codeNewline] @
              ((renderValue v @ [codeComma] @ w2) @ renderValue v' @
                 concat (map repairedLine ls) @ w) @ [codeNewline, codeClosingBracket]\<rparr>"
      using wf(3) assms(4,5) _ _
      by (rule parseNewlineDelimitedJSON_lines) (use dj n(2) in \<open>simp_all add: rest_def\<close>)
    have "jsonrepair n tx = Ok ([codeOpeningBracket, codeNewline] @
             renderValue v @ concat (map repairedLine (l # ls)) @ w @
             [codeNewline, codeClosingBracket])"
      using pv pc dj sv e ins nd fin
      by (simp add: jsonrepair_def Let_def atIndex_headIs l False nc)
    then show ?thesis by (simp add: tx_def)
  qed
qed

section \<open>The output is not always a JSON document\<close>

text \<open>
  C1. Every text that \<open>jsonrepair\<close> returns should be a JSON document. For the JSONP call
  \<open>callback()\<close> with no argument it returns the empty text, which is none:
  \<open>parseUnquotedString\<close> takes \<open>callback\<close> for a function name, does not look at what
  \<open>parseValue\<close> found between the parentheses, and reports a value.
\<close>

theorem jsonrepair_callback_returns_empty:
  "jsonrepair 10 (js ''callback()'') = Ok []"
  by (simp add: run cong: let_weak_cong)

section \<open>What \<open>parseComment\<close> does\<close>

text \<open>The scan of a block comment stops at the first asterisk with a slash right after
  it, and the scan of a line comment at the first newline or at the end of the text.\<close>

lemma parseComment_block_run:
  assumes "drop i text = x @ codeAsterisk # codeSlash # r" "\<not> hasCommentEnd (x @ [codeAsterisk])"
  shows "parseComment_block text i = i + length x"
  using assms
proof (induction x arbitrary: i)
  case Nil
  then have d: "drop i text = codeAsterisk # codeSlash # r" by simp
  have "atEndOfBlockComment text i"
    using d drop_Cons_Suc [OF d] by (simp add: atEndOfBlockComment_def charCodeAt_headOf)
  then show ?case
    by (subst parseComment_block.simps) simp
next
  case (Cons a x)
  have d: "drop i text = a # (x @ codeAsterisk # codeSlash # r)" using Cons.prems(1) by simp
  have d1: "drop (Suc i) text = x @ codeAsterisk # codeSlash # r" using d by (rule drop_Cons_Suc)
  obtain c x' where x: "x @ [codeAsterisk] = c # x'" by (cases x) auto
  have h: "\<not> (a = codeAsterisk \<and> c = codeSlash)" "\<not> hasCommentEnd (x @ [codeAsterisk])"
    using Cons.prems(2) x by simp_all
  have c: "headOf (drop (Suc i) text) = Some c"
    using d1 x by (cases x) auto
  have "\<not> atEndOfBlockComment text i"
    using d c h(1) by (auto simp: atEndOfBlockComment_def charCodeAt_headOf)
  moreover have "i < length text" using d by (rule drop_Cons_length)
  moreover have "parseComment_block text (Suc i) = Suc i + length x"
    using d1 h(2) by (rule Cons.IH)
  ultimately show ?case
    by (subst parseComment_block.simps) simp
qed

lemma parseComment_line_run:
  assumes "drop i text = x @ r" "list_all (\<lambda>c. c \<noteq> codeNewline) x"
    "r = [] \<or> headOf r = Some codeNewline"
  shows "parseComment_line text i = i + length x"
  using assms
proof (induction x arbitrary: i)
  case Nil
  then have "\<not> (i < length text \<and> charCodeAt text i \<noteq> Some codeNewline)"
    by (auto simp: charCodeAt_headOf)
  then show ?case
    by (subst parseComment_line.simps) auto
next
  case (Cons a x)
  have d: "drop i text = a # (x @ r)" using Cons.prems(1) by simp
  have "charCodeAt text i \<noteq> Some codeNewline"
    using d Cons.prems(2) by (simp add: charCodeAt_headOf)
  moreover have "i < length text" using d by (rule drop_Cons_length)
  moreover have "parseComment_line text (Suc i) = Suc i + length x"
    using drop_Cons_Suc [OF d] Cons.prems(2,3) by (intro Cons.IH) simp_all
  ultimately show ?case
    by (subst parseComment_line.simps) simp
qed

lemma parseComment_block_comment:
  assumes "drop (cursor s) text =
      [codeSlash, codeAsterisk] @ body @ [codeAsterisk, codeSlash] @ r"
    "\<not> hasCommentEnd (codeAsterisk # body @ [codeAsterisk])"
  shows "parseComment text s = (True, s\<lparr>cursor := cursor s + length body + 4\<rparr>)"
proof -
  have d: "drop (cursor s) text = codeSlash # codeAsterisk # body @ codeAsterisk # codeSlash # r"
    using assms(1) by simp
  have d': "drop (cursor s) text = ([codeSlash, codeAsterisk] @ body) @ codeAsterisk # codeSlash # r"
    using assms(1) by simp
  have "\<not> hasCommentEnd (([codeSlash, codeAsterisk] @ body) @ [codeAsterisk])"
    using assms(2) by simp
  from parseComment_block_run [OF d' this]
  show ?thesis
    using d drop_Cons_Suc [OF d] by (simp add: parseComment_def charCodeAt_headOf)
qed

lemma parseComment_line_comment:
  assumes "drop (cursor s) text = [codeSlash, codeSlash] @ body @ r"
    "list_all (\<lambda>c. c \<noteq> codeNewline) body" "r = [] \<or> headOf r = Some codeNewline"
  shows "parseComment text s = (True, s\<lparr>cursor := cursor s + length body + 2\<rparr>)"
proof -
  have d: "drop (cursor s) text = codeSlash # codeSlash # body @ r"
    using assms(1) by simp
  have d': "drop (cursor s) text = ([codeSlash, codeSlash] @ body) @ r"
    using assms(1) by simp
  have "list_all (\<lambda>c. c \<noteq> codeNewline) ([codeSlash, codeSlash] @ body)"
    using assms(2) by simp
  from parseComment_line_run [OF d' this assms(3)]
  show ?thesis
    using d drop_Cons_Suc [OF d] by (simp add: parseComment_def charCodeAt_headOf)
qed

section \<open>Comments\<close>

text \<open>
  C2, as amended. \<open>parseComment\<close> recognizes a block comment and a line comment and emits
  nothing. It moves the cursor past a block comment whose closing \<open>*/\<close> is the first
  asterisk with a slash right after it that follows the opening slash, and over a line
  comment up to the newline that ends it or to the end of the text. But no recognizer
  calls it: \<open>parseWhitespaceAndSkipComments\<close> skips whitespace only, and at a slash it
  neither moves the cursor nor emits. Without a comment in front, the input
  \<open>{"x": NumberLong("42")}\<close> is repaired to \<open>{"x": "42"}\<close>.
\<close>

theorem comments_are_not_skipped:
  "(\<forall>text s. charCodeAt text (cursor s) = Some codeSlash \<longrightarrow>
      parseWhitespaceAndSkipComments text s = (False, s)) \<and>
   (\<forall>text s. out (snd (parseComment text s)) = out s) \<and>
   (\<forall>text s body r.
      drop (cursor s) text = [codeSlash, codeAsterisk] @ body @ [codeAsterisk, codeSlash] @ r \<and>
      \<not> hasCommentEnd (codeAsterisk # body @ [codeAsterisk]) \<longrightarrow>
      parseComment text s = (True, s\<lparr>cursor := cursor s + length body + 4\<rparr>)) \<and>
   (\<forall>text s body r.
      drop (cursor s) text = [codeSlash, codeSlash] @ body @ r \<and>
      list_all (\<lambda>c. c \<noteq> codeNewline) body \<and> (r = [] \<or> headOf r = Some codeNewline) \<longrightarrow>
      parseComment text s = (True, s\<lparr>cursor := cursor s + length body + 2\<rparr>)) \<and>
   jsonrepair 20 (js ''{\"x\": NumberLong(\"42\")}'') = Ok (js ''{\"x\": \"42\"}'')"
proof (intro conjI allI impI)
  fix tx :: jstring and s :: pstate
  assume "charCodeAt tx (cursor s) = Some codeSlash"
  then have "\<not> atIndex isWhitespace tx (cursor s)" "\<not> atIndex isSpecialWhitespace tx (cursor s)"
    by (simp_all add: atIndex_def isWhitespace_def isSpecialWhitespace_def)
  then show "parseWhitespaceAndSkipComments tx s = (False, s)"
    by (simp add: parseWhitespaceAndSkipComments_def parseWhitespace_def
        parseWhitespace_loop_stop)
next
  fix tx :: jstring and s :: pstate
  show "out (snd (parseComment tx s)) = out s"
    by (simp add: parseComment_def)
next
  fix tx body r :: jstring and s :: pstate
  assume "drop (cursor s) tx = [codeSlash, codeAsterisk] @ body @ [codeAsterisk, codeSlash] @ r \<and>
      \<not> hasCommentEnd (codeAsterisk # body @ [codeAsterisk])"
  then show "parseComment tx s = (True, s\<lparr>cursor := cursor s + length body + 4\<rparr>)"
    by (intro parseComment_block_comment [where r = r]) simp_all
next
  fix tx body r :: jstring and s :: pstate
  assume "drop (cursor s) tx = [codeSlash, codeSlash] @ body @ r \<and>
      list_all (\<lambda>c. c \<noteq> codeNewline) body \<and> (r = [] \<or> headOf r = Some codeNewline)"
  then show "parseComment tx s = (True, s\<lparr>cursor := cursor s + length body + 2\<rparr>)"
    by (intro parseComment_line_comment [where r = r]) simp_all
next
  show "jsonrepair 20 (js ''{\"x\": NumberLong(\"42\")}'') = Ok (js ''{\"x\": \"42\"}'')"
    by (simp add: run cong: let_weak_cong)
qed

theorem comments_are_not_skipped_witness:
  "parseWhitespaceAndSkipComments (js ''/* c */ 1'') \<lparr>cursor = 0, out = []\<rparr> =
     (False, \<lparr>cursor = 0, out = []\<rparr>) \<and>
   parseComment (js ''/* c */ 1'') \<lparr>cursor = 0, out = []\<rparr> = (True, \<lparr>cursor = 7, out = []\<rparr>) \<and>
   parseComment (js ''[// c'' @ [codeNewline] @ js ''1]'') \<lparr>cursor = 1, out = js ''[''\<rparr> =
     (True, \<lparr>cursor = 5, out = js ''[''\<rparr>)"
proof -
  note w = comments_are_not_skipped [THEN conjunct1, rule_format]
  note b = comments_are_not_skipped [THEN conjunct2, THEN conjunct2, THEN conjunct1, rule_format]
  note l = comments_are_not_skipped
    [THEN conjunct2, THEN conjunct2, THEN conjunct2, THEN conjunct1, rule_format]
  have 1: "parseWhitespaceAndSkipComments (js ''/* c */ 1'') \<lparr>cursor = 0, out = []\<rparr> =
      (False, \<lparr>cursor = 0, out = []\<rparr>)"
    using w [of "js ''/* c */ 1''" "\<lparr>cursor = 0, out = []\<rparr>"]
    by (simp add: charCodeAt_def js_def)
  have 2: "parseComment (js ''/* c */ 1'') \<lparr>cursor = 0, out = []\<rparr> = (True, \<lparr>cursor = 7, out = []\<rparr>)"
    using b [of "\<lparr>cursor = 0, out = []\<rparr>" "js ''/* c */ 1''" "js '' c ''" "js '' 1''"]
    by (simp add: js_def)
  have 3: "parseComment (js ''[// c'' @ [codeNewline] @ js ''1]'') \<lparr>cursor = 1, out = js ''[''\<rparr> =
      (True, \<lparr>cursor = 5, out = js ''[''\<rparr>)"
    using l [of "\<lparr>cursor = 1, out = js ''[''\<rparr>" "js ''[// c'' @ [codeNewline] @ js ''1]''"
        "js '' c''" "[codeNewline] @ js ''1]''"]
    by (simp add: js_def)
  show ?thesis
    using 1 2 3 by simp
qed

text \<open>
  The claim as stated fails on its own example: with the comment \<open>/* c */\<close> in front, the
  comment is read as an unquoted string, the object that follows it is neither the rest
  of a newline-delimited list nor a redundant closer, and \<open>jsonrepair\<close> raises
  \<open>UnexpectedCharacter\<close> at position 8, the opening brace.
\<close>

theorem commented_input_is_rejected:
  "jsonrepair 40 (js ''/* c */ {\"x\": NumberLong(\"42\")}'') = Throw (UnexpectedCharacter 8)"
  by (simp add: run cong: let_weak_cong)

section \<open>Repairing twice\<close>

text \<open>
  C3. Repairing a repaired text should give the same text again. It does not where the
  first repair returns no JSON document. For \<open>callback()\<close> the first repair returns the
  empty text and the second raises \<open>UnexpectedEnd\<close>. For the single-quoted string
  \<open>'a\\"b'\<close> the first repair keeps the double quote unescaped, since the character before
  it is a backslash (the second half of an escaped backslash), and the second repair
  escapes it: the two results differ.
\<close>

theorem jsonrepair_twice_differs:
  "jsonrepair 10 (js ''callback()'') = Ok [] \<and>
   jsonrepair 10 [] = Throw (UnexpectedEnd 0) \<and>
   jsonrepair 12 ([codeQuote] @ js ''a'' @ [codeBackslash, codeBackslash] @ js ''\"b'' @ [codeQuote]) =
     Ok (js ''\"a'' @ [codeBackslash, codeBackslash] @ js ''\"b\"'') \<and>
   jsonrepair 12 (js ''\"a'' @ [codeBackslash, codeBackslash] @ js ''\"b\"'') =
     Ok (js ''\"a'' @ [codeBackslash, codeBackslash, codeBackslash] @ js ''\"b\"'')"
  by (simp add: run cong: let_weak_cong)

section \<open>JSON is left as it is\<close>

text \<open>
  C4. A text of JSON, a value between whitespace with no special whitespace outside its
  strings, is returned as it is: for every syntax tree \<open>e\<close> of JSON, \<open>jsonrepair\<close> with
  more fuel than twice the length of the text of \<open>e\<close> returns that text.
\<close>

theorem valid_json_is_unchanged:
  "wfElement e \<and> 2 * length (renderElement e) < n \<longrightarrow>
   jsonrepair n (renderElement e) = Ok (renderElement e)"
  by (simp add: jsonrepair_json)

theorem valid_json_is_unchanged_witness:
  "jsonrepair 90 (js '' {\"a'' @ [codeBackslash, codeDoubleQuote] @ js ''\": [-1.5e+3, true, {}],'' @
       [codeNewline] @ js ''\"b\": null} '') =
     Ok (js '' {\"a'' @ [codeBackslash, codeDoubleQuote] @ js ''\": [-1.5e+3, true, {}],'' @
       [codeNewline] @ js ''\"b\": null} '')"
  using valid_json_is_unchanged
    [of "Element [codeSpace]
          (JObject []
            [Member [] [Plain 0x61, Escape codeDoubleQuote] [] (Element [codeSpace]
               (JArray []
                  [Element [] (JNumber [codeMinus] [0x31] [0x35] [codeLowercaseE, codePlus] [0x33]) [],
                   Element [codeSpace] JTrue [],
                   Element [codeSpace] (JObject [] []) []]) []),
             Member [codeNewline] [Plain 0x62] [] (Element [codeSpace] JNull [])])
          [codeSpace]" 90]
  by (simp add: js_def renderString_def renderNumber_def wfNumber_def isWhitespace_def isDigit_def)

section \<open>Empty and whitespace-only input\<close>

text \<open>
  C5, as amended. If the input is empty or holds only whitespace, normal or special,
  \<open>jsonrepair\<close> raises \<open>UnexpectedEnd\<close>, and the position of the error is the length of
  the input. Two units of fuel are enough, whatever the length: the whitespace loop takes
  none. (Comments are not whitespace for this parser: see the next theorem but one.)
\<close>

theorem whitespace_only_unexpected_end:
  assumes "list_all (\<lambda>c. isWhitespace c \<or> isSpecialWhitespace c) text" and "2 \<le> n"
  shows "jsonrepair n text = Throw (UnexpectedEnd (length text))"
proof -
  obtain m where n: "n = Suc (Suc m)"
    using assms(2) by (metis Suc_diff_Suc Suc_le_lessD diff_zero numeral_2_eq_2 Suc_le_eq less_imp_Suc_add add_Suc add_0)
  define s where "s = snd (parseWhitespaceAndSkipComments text \<lparr>cursor = 0, out = []\<rparr>)"
  have e: "length text \<le> cursor s"
    using skip_whitespace_all [OF assms(1)] by (simp add: s_def)
  have "parseValue (Suc (Suc m)) text \<lparr>cursor = 0, out = []\<rparr> = Ok (False, s)"
    using e
    by (simp add: parseValue_Suc parseValue_body_def s_def [symmetric] skip_whitespace_at_end
        parseObject_at_end parseArray_at_end parseString_at_end parseNumber_at_end
        parseKeywords_at_end parseUnquotedString_at_end orElse_def)
  then show ?thesis
    by (simp add: jsonrepair_def n)
qed

theorem whitespace_only_unexpected_end_witness:
  "jsonrepair 2 [] = Throw (UnexpectedEnd 0) \<and>
   jsonrepair 2 [codeSpace, 0xa0, codeNewline] = Throw (UnexpectedEnd 3)"
  using whitespace_only_unexpected_end [of "[]" 2]
    whitespace_only_unexpected_end [of "[codeSpace, 0xa0, codeNewline]" 2]
  by (simp add: isWhitespace_def isSpecialWhitespace_def)

text \<open>
  The claim includes input made of comments. The comment loop of
  \<open>parseWhitespaceAndSkipComments\<close> is disabled in the source, so the comment \<open>/* c */\<close>
  alone is read as an unquoted string and returned in quotes; no error is raised.
\<close>

theorem comment_only_is_repaired:
  "jsonrepair 10 (js ''/* c */'') = Ok (js ''\"/* c */\"'')"
  by (simp add: run cong: let_weak_cong)

section \<open>Newline delimited JSON\<close>

text \<open>
  C6. Values one after the other become an array. Let a text be a value of JSON, one or
  more lines, each of them whitespace, a comma or none, whitespace and a value of JSON, and
  whitespace; the first line has its comma, or its whitespace ends, spaces, tabs and
  carriage returns apart, with a newline. Then \<open>jsonrepair\<close> returns the text with a comma
  put in each line that has none, in front of the whitespace of that line, and the whole
  between \<open>[\<close>, a newline and a newline, \<open>]\<close>. For \<open>{"a": 1}\<close>, a newline and \<open>{"a": 2}\<close> it
  returns \<open>[\<close>, a newline, \<open>{"a": 1},\<close>, a newline, \<open>{"a": 2}\<close>, a newline and \<open>]\<close>.
\<close>

theorem values_in_lines_become_an_array:
  "(\<forall>v l ls w n.
      wfValue v \<and> wfLine l \<and> startsList l \<and> list_all wfLine ls \<and> list_all isWhitespace w \<and>
      2 * length (renderValue v @ concat (map renderLine (l # ls)) @ w) + 4 \<le> n \<longrightarrow>
      jsonrepair n (renderValue v @ concat (map renderLine (l # ls)) @ w) =
        Ok ([codeOpeningBracket, codeNewline] @
            renderValue v @ concat (map repairedLine (l # ls)) @ w @
            [codeNewline, codeClosingBracket])) \<and>
   jsonrepair 50 (js ''{\"a\": 1}'' @ [codeNewline] @ js ''{\"a\": 2}'') =
     Ok (js ''['' @ [codeNewline] @ js ''{\"a\": 1},'' @ [codeNewline] @ js ''{\"a\": 2}'' @
         [codeNewline] @ js '']'')"
proof (intro conjI allI impI)
  fix v l ls w and n :: nat
  assume "wfValue v \<and> wfLine l \<and> startsList l \<and> list_all wfLine ls \<and> list_all isWhitespace w \<and>
      2 * length (renderValue v @ concat (map renderLine (l # ls)) @ w) + 4 \<le> n"
  then show "jsonrepair n (renderValue v @ concat (map renderLine (l # ls)) @ w) =
      Ok ([codeOpeningBracket, codeNewline] @
          renderValue v @ concat (map repairedLine (l # ls)) @ w @
          [codeNewline, codeClosingBracket])"
    by (intro jsonrepair_ndjson) simp_all
next
  show "jsonrepair 50 (js ''{\"a\": 1}'' @ [codeNewline] @ js ''{\"a\": 2}'') =
     Ok (js ''['' @ [codeNewline] @ js ''{\"a\": 1},'' @ [codeNewline] @ js ''{\"a\": 2}'' @
         [codeNewline] @ js '']'')"
    by (simp add: run cong: let_weak_cong)
qed

theorem values_in_lines_become_an_array_witness:
  "jsonrepair 100 (js ''[1]'' @ [codeNewline] @ js ''{\"a\": 2} ,'' @ [codeTab] @ js ''true '' @
       [codeNewline] @ js ''\"x\"'' @ [codeNewline]) =
     Ok (js ''['' @ [codeNewline] @ js ''[1],'' @ [codeNewline] @ js ''{\"a\": 2} ,'' @ [codeTab] @
         js ''true, '' @ [codeNewline] @ js ''\"x\"'' @ [codeNewline] @ [codeNewline] @ js '']'')"
  using values_in_lines_become_an_array [THEN conjunct1, rule_format,
      of "JArray [] [Element [] (JNumber [] [0x31] [] [] []) []]"
         "Line [] False [codeNewline]
            (JObject [] [Member [] [Plain 0x61] [] (Element [codeSpace] (JNumber [] [0x32] [] [] []) [])])"
         "[Line [codeSpace] True [codeTab] JTrue,
           Line [] False [codeSpace, codeNewline] (JString [Plain 0x78])]"
         "[codeNewline]" 100]
  by (simp add: js_def renderString_def renderNumber_def wfNumber_def isWhitespace_def isDigit_def
      lineStart_def endsWithCommaOrNewline_def)

section \<open>Where the cursor goes back\<close>

text \<open>
  C7, as amended. Between its call and its return no recognizer lets the cursor fall
  behind where it was at the call: not \<open>parseValue\<close>, \<open>parseObject\<close>, \<open>parseArray\<close>,
  \<open>parseString\<close>, \<open>parseConcatenatedString\<close>, \<open>parseNumber\<close>, \<open>parseKeywords\<close>, the whitespace
  and ellipsis skippers or the two loops of the top level, for any text, state and fuel,
  and not \<open>parseUnquotedString\<close> where the parser calls it (\<open>unquotedStart\<close>). Inside three
  recognizers the cursor does go back, each time to a bound of its own: in the loop of
  \<open>parseString\<close> never behind \<open>iBefore\<close>, in \<open>parseNumber\<close> to its start when it fails (the
  state it returns is the state it got), and in \<open>parseUnquotedString\<close> over the trailing
  whitespace of the run it scanned, never behind its start.
\<close>

theorem cursor_not_behind_entry:
  "(\<forall>n text s p s'. parseValue n text s = Ok (p, s') \<longrightarrow> cursor s \<le> cursor s') \<and>
   (\<forall>n text s p s'. parseObject n text s = Ok (p, s') \<longrightarrow> cursor s \<le> cursor s') \<and>
   (\<forall>n text s p s'. parseArray n text s = Ok (p, s') \<longrightarrow> cursor s \<le> cursor s') \<and>
   (\<forall>n text b s p s'. parseString n text b s = Ok (p, s') \<longrightarrow> cursor s \<le> cursor s') \<and>
   (\<forall>n text s p s'. parseConcatenatedString n text s = Ok (p, s') \<longrightarrow> cursor s \<le> cursor s') \<and>
   (\<forall>n text s p s'. unquotedStart text (cursor s) \<longrightarrow> parseUnquotedString n text s = Ok (p, s') \<longrightarrow>
      cursor s \<le> cursor s') \<and>
   (\<forall>text s. cursor s \<le> cursor (snd (parseNumber text s))) \<and>
   (\<forall>text s. cursor s \<le> cursor (snd (parseKeywords text s))) \<and>
   (\<forall>text s. cursor s \<le> cursor (snd (parseWhitespaceAndSkipComments text s))) \<and>
   (\<forall>text s. cursor s \<le> cursor (snd (skipEllipsis text s))) \<and>
   (\<forall>n text b s s'. parseNewlineDelimitedJSON_loop n text b s = Ok s' \<longrightarrow> cursor s \<le> cursor s') \<and>
   (\<forall>text s. cursor s \<le> cursor (jsonrepair_loop text s)) \<and>
   (\<forall>n text b e q iBefore oBefore str s p s'.
      iBefore \<le> cursor s \<longrightarrow>
      parseString_loop n text b e q iBefore oBefore str s = Ok (p, s') \<longrightarrow> iBefore \<le> cursor s') \<and>
   (\<forall>text s s'. parseNumber text s = (False, s') \<longrightarrow> s' = s) \<and>
   (\<forall>text start k. start < k \<longrightarrow> unquotedStart text start \<longrightarrow>
      start \<le> parseUnquotedString_trim text k)"
proof (intro conjI allI impI)
  fix tx :: jstring and s :: pstate
  show "cursor s \<le> cursor (snd (parseNumber tx s))"
    using parseNumber_cursor [of tx s "fst (parseNumber tx s)" "snd (parseNumber tx s)"] by simp
  show "cursor s \<le> cursor (snd (parseKeywords tx s))"
    by (rule parseKeywords_cursor_snd)
  show "cursor s \<le> cursor (snd (parseWhitespaceAndSkipComments tx s))"
    by (rule skip_whitespace_mono)
  show "cursor s \<le> cursor (snd (skipEllipsis tx s))"
    by (rule skipEllipsis_cursor)
  show "cursor s \<le> cursor (jsonrepair_loop tx s)"
    by (rule jsonrepair_loop_advances)
qed (erule cursorsAdvanceD [OF cursorsAdvance_all] parseNewlineDelimitedJSON_loop_advances
    parseNumber_False parseUnquotedString_trim_start; assumption?)+

theorem cursor_not_behind_entry_witness:
  "parseValue 3 (js ''1a'') \<lparr>cursor = 0, out = []\<rparr> =
     Ok (True, \<lparr>cursor = 2, out = js ''\"1a\"''\<rparr>) \<and>
   cursor \<lparr>cursor = 0, out = []\<rparr> \<le> cursor \<lparr>cursor = 2, out = js ''\"1a\"''\<rparr> \<and>
   unquotedStart (js ''a ,'') 0 \<and>
   parseUnquotedString 1 (js ''a ,'') \<lparr>cursor = 0, out = []\<rparr> =
     Ok (True, \<lparr>cursor = 1, out = js ''\"a\"''\<rparr>) \<and>
   cursor \<lparr>cursor = 0, out = []\<rparr> \<le> cursor \<lparr>cursor = 1, out = js ''\"a\"''\<rparr>"
proof -
  have v: "parseValue 3 (js ''1a'') \<lparr>cursor = 0, out = []\<rparr> =
      Ok (True, \<lparr>cursor = 2, out = js ''\"1a\"''\<rparr>)"
    by (simp add: run cong: let_weak_cong)
  have u1: "unquotedStart (js ''a ,'') (cursor \<lparr>cursor = 0, out = []\<rparr>)"
    by (simp add: unquotedStart_def)
  have u: "parseUnquotedString 1 (js ''a ,'') \<lparr>cursor = 0, out = []\<rparr> =
      Ok (True, \<lparr>cursor = 1, out = js ''\"a\"''\<rparr>)"
    by (simp add: run cong: let_weak_cong)
  show ?thesis
    using v u u1
      cursor_not_behind_entry [THEN conjunct1, rule_format, OF v]
      cursor_not_behind_entry [THEN conjunct2, THEN conjunct2, THEN conjunct2, THEN conjunct2,
        THEN conjunct2, THEN conjunct1, rule_format, OF u1 u]
    by simp
qed

text \<open>
  The claim as stated has the cursor go back in the string recognizer only. On the input
  \<open>a ,\<close> the first loop of \<open>parseUnquotedString\<close> leaves the cursor at 2 and its second loop
  puts it back to 1; on \<open>1a\<close> the digit loop of \<open>parseNumber\<close> leaves it at 1 and
  \<open>parseNumber\<close> returns with the cursor at 0.
\<close>

theorem cursor_goes_back_in_other_recognizers:
  "parseUnquotedString_scan (js ''a ,'') 0 = 2 \<and>
   parseUnquotedString_trim (js ''a ,'') 2 = 1 \<and>
   parseNumber_digits (js ''1a'') 0 = 1 \<and>
   parseNumber (js ''1a'') \<lparr>cursor = 0, out = []\<rparr> = (False, \<lparr>cursor = 0, out = []\<rparr>)"
  by (simp add: run cong: let_weak_cong)

section \<open>Concatenated strings\<close>

text \<open>
  C8. Strings joined by plus signs become one string. Wherever \<open>parseString\<close> is called at
  a string in double quotes that operands follow, each of them whitespace, a plus sign,
  whitespace and a string in double quotes, and then whitespace and the end of a value,
  it returns true at the end of that whitespace and has appended one string, the items of
  all of them in their order between one pair of quotes, and the whitespace after the last
  string: the closing quote of each string on the left, the whitespace around each plus
  sign and the opening quote of each string on the right are gone. If no string follows
  the plus sign but the end of a value, the closing quote is put back before the
  whitespace the output ends with. \<open>jsonrepair\<close> returns the one string for a text that is
  such a concatenation, and \<open>"ab"\<close> for \<open>"a" + "b"\<close>.
\<close>

theorem concatenated_strings_are_joined:
  "(\<forall>text i b xs gs w r n.
      list_all wfItem xs \<and> list_all wfOperand gs \<and> list_all isWhitespace w \<and> valueEnd r \<and>
      drop i text = concatenation xs gs @ w @ r \<and> concatenationFuel xs gs \<le> n \<longrightarrow>
      parseString n text False \<lparr>cursor = i, out = b\<rparr> =
        Ok (True, \<lparr>cursor = i + length (concatenation xs gs) + length w,
                   out = b @ renderString (joined xs gs) @ w\<rparr>)) \<and>
   (\<forall>text i b xs w1 w2 r n.
      list_all wfItem xs \<and> list_all isWhitespace w1 \<and> list_all isWhitespace w2 \<and> valueEnd r \<and>
      drop i text = renderString xs @ w1 @ codePlus # w2 @ r \<longrightarrow>
      parseString (length xs + 5 + n) text False \<lparr>cursor = i, out = b\<rparr> =
        Ok (True, \<lparr>cursor = i + length (renderString xs @ w1 @ codePlus # w2),
                   out = insertBeforeLastWhitespace (b @ codeDoubleQuote # renderItems xs)
                           [codeDoubleQuote]\<rparr>)) \<and>
   (\<forall>xs gs w n.
      list_all wfItem xs \<and> list_all wfOperand gs \<and> list_all isWhitespace w \<and>
      concatenationFuel xs gs < n \<longrightarrow>
      jsonrepair n (concatenation xs gs @ w) = Ok (renderString (joined xs gs) @ w)) \<and>
   jsonrepair 20 (js ''\"a\" + \"b\"'') = Ok (js ''\"ab\"'')"
proof (intro conjI allI impI)
  fix tx b xs gs w r and i n :: nat
  assume "list_all wfItem xs \<and> list_all wfOperand gs \<and> list_all isWhitespace w \<and> valueEnd r \<and>
      drop i tx = concatenation xs gs @ w @ r \<and> concatenationFuel xs gs \<le> n"
  then show "parseString n tx False \<lparr>cursor = i, out = b\<rparr> =
      Ok (True, \<lparr>cursor = i + length (concatenation xs gs) + length w,
                 out = b @ renderString (joined xs gs) @ w\<rparr>)"
    by (intro parseString_concat [where r = r]) simp_all
next
  fix tx b xs w1 w2 r and i n :: nat
  assume "list_all wfItem xs \<and> list_all isWhitespace w1 \<and> list_all isWhitespace w2 \<and> valueEnd r \<and>
      drop i tx = renderString xs @ w1 @ codePlus # w2 @ r"
  then show "parseString (length xs + 5 + n) tx False \<lparr>cursor = i, out = b\<rparr> =
      Ok (True, \<lparr>cursor = i + length (renderString xs @ w1 @ codePlus # w2),
                 out = insertBeforeLastWhitespace (b @ codeDoubleQuote # renderItems xs)
                         [codeDoubleQuote]\<rparr>)"
    by (intro parseString_plus_nothing [where r = r]) simp_all
next
  fix xs gs w and n :: nat
  assume "list_all wfItem xs \<and> list_all wfOperand gs \<and> list_all isWhitespace w \<and>
      concatenationFuel xs gs < n"
  then show "jsonrepair n (concatenation xs gs @ w) = Ok (renderString (joined xs gs) @ w)"
    by (intro jsonrepair_concat) simp_all
next
  show "jsonrepair 20 (js ''\"a\" + \"b\"'') = Ok (js ''\"ab\"'')"
    by (simp add: run cong: let_weak_cong)
qed

theorem concatenated_strings_are_joined_witness:
  "parseString 15 (js ''[\"a\" + \"b\"+\"c\" ]'') False \<lparr>cursor = 1, out = js ''[''\<rparr> =
     Ok (True, \<lparr>cursor = 15, out = js ''[\"abc\" ''\<rparr>) \<and>
   parseString 7 (js ''[\"a \" + ]'') False \<lparr>cursor = 1, out = js ''[''\<rparr> =
     Ok (True, \<lparr>cursor = 8, out = js ''[\"a\" ''\<rparr>) \<and>
   jsonrepair 16 (js ''\"a\" + \"b\"+\"c\" '') = Ok (js ''\"abc\" '')"
proof -
  note c = concatenated_strings_are_joined [THEN conjunct1, rule_format]
  note p = concatenated_strings_are_joined [THEN conjunct2, THEN conjunct1, rule_format]
  note j = concatenated_strings_are_joined
    [THEN conjunct2, THEN conjunct2, THEN conjunct1, rule_format]
  have 1: "parseString 15 (js ''[\"a\" + \"b\"+\"c\" ]'') False \<lparr>cursor = 1, out = js ''[''\<rparr> =
      Ok (True, \<lparr>cursor = 15, out = js ''[\"abc\" ''\<rparr>)"
    using c [of "[Plain 0x61]" "[Operand [codeSpace] [codeSpace] [Plain 0x62], Operand [] [] [Plain 0x63]]"
        "[codeSpace]" "[codeClosingBracket]" 1 "js ''[\"a\" + \"b\"+\"c\" ]''" 15 "js ''[''"]
    by (simp add: js_def concatenation_def joined_def concatenationFuel_def renderString_def
        valueEnd_def isWhitespace_def)
  have 2: "parseString 7 (js ''[\"a \" + ]'') False \<lparr>cursor = 1, out = js ''[''\<rparr> =
      Ok (True, \<lparr>cursor = 8, out = js ''[\"a\" ''\<rparr>)"
    using p [of "[Plain 0x61, Plain 0x20]" "[codeSpace]" "[codeSpace]" "[codeClosingBracket]" 1
        "js ''[\"a \" + ]''" 0 "js ''[''"]
    by (simp add: js_def renderString_def valueEnd_def isWhitespace_def
        insertBeforeLastWhitespace_def)
  have 3: "jsonrepair 16 (js ''\"a\" + \"b\"+\"c\" '') = Ok (js ''\"abc\" '')"
    using j [of "[Plain 0x61]" "[Operand [codeSpace] [codeSpace] [Plain 0x62], Operand [] [] [Plain 0x63]]"
        "[codeSpace]" 16]
    by (simp add: js_def concatenation_def joined_def concatenationFuel_def renderString_def
        isWhitespace_def)
  show ?thesis
    using 1 2 3 by simp
qed

section \<open>Numbers cut off\<close>

text \<open>
  C9. A number cut off after its minus, after the dot that follows its digits or in its
  exponent gets a \<open>0\<close>: \<open>-\<close> gives \<open>-0\<close>, \<open>1.\<close> gives \<open>1.0\<close>, \<open>1e\<close> gives \<open>1e0\<close>, and
  \<open>["x", 1.]\<close> is repaired to \<open>["x", 1.0]\<close>; the lemmas \<open>parseNumber_truncated_minus\<close>,
  \<open>parseNumber_truncated_dot\<close> and \<open>parseNumber_truncated_exponent\<close> say so for every
  number with digits. That should be the only digit \<open>parseNumber\<close> makes up, and the comment
  on \<open>repairNumberEndingWithNumericSymbol\<close> says that it changes the number no more than it
  needs to make it valid JSON. But \<open>parseNumber\<close> asks for no digit before the dot or the
  exponent marker: a lone \<open>e\<close>, a lone dot and \<open>.5e\<close> are no numbers cut off, and they get a
  \<open>0\<close> too. \<open>jsonrepair\<close> returns \<open>[e0]\<close> for \<open>[e]\<close> and \<open>[.0]\<close> for \<open>[.]\<close>, which are not
  JSON.
\<close>

theorem parseNumber_makes_up_digit_without_number:
  "parseNumber (js ''e'') \<lparr>cursor = 0, out = []\<rparr> = (True, \<lparr>cursor = 1, out = js ''e0''\<rparr>) \<and>
   parseNumber (js ''.'') \<lparr>cursor = 0, out = []\<rparr> = (True, \<lparr>cursor = 1, out = js ''.0''\<rparr>) \<and>
   parseNumber (js ''.5e'') \<lparr>cursor = 0, out = []\<rparr> = (True, \<lparr>cursor = 3, out = js ''.5e0''\<rparr>) \<and>
   jsonrepair 10 (js ''[e]'') = Ok (js ''[e0]'') \<and>
   jsonrepair 10 (js ''[.]'') = Ok (js ''[.0]'') \<and>
   parseNumber (js ''-'') \<lparr>cursor = 0, out = []\<rparr> = (True, \<lparr>cursor = 1, out = js ''-0''\<rparr>) \<and>
   parseNumber (js ''1.'') \<lparr>cursor = 0, out = []\<rparr> = (True, \<lparr>cursor = 2, out = js ''1.0''\<rparr>) \<and>
   parseNumber (js ''1e'') \<lparr>cursor = 0, out = []\<rparr> = (True, \<lparr>cursor = 2, out = js ''1e0''\<rparr>) \<and>
   jsonrepair 10 (js ''[\"x\", 1.]'') = Ok (js ''[\"x\", 1.0]'')"
  by (simp add: run parseNumber_digits.simps cong: let_weak_cong)

section \<open>A backslash in front of a value\<close>

text \<open>
  C10. When a string is tried at a backslash that no quote follows, \<open>parseString\<close> returns
  false and leaves the cursor behind that backslash: the state it returns differs from
  the one it got by the cursor only, which is one further. The recognizers tried next
  start there, so the backslash is dropped: the input \<open>\foo\<close> is repaired to \<open>"foo"\<close>.
\<close>

theorem parseString_leading_backslash:
  "(\<forall>n text stopAtDelimiter s.
      charCodeAt text (cursor s) = Some codeBackslash \<and> \<not> atIndex isQuote text (cursor s + 1) \<longrightarrow>
      parseString (Suc n) text stopAtDelimiter s = Ok (False, s\<lparr>cursor := cursor s + 1\<rparr>)) \<and>
   jsonrepair 10 (codeBackslash # js ''foo'') = Ok (js ''\"foo\"'')"
proof (intro conjI allI impI)
  fix n :: nat and tx :: jstring and stopAtDelimiter :: bool and s :: pstate
  assume "charCodeAt tx (cursor s) = Some codeBackslash \<and> \<not> atIndex isQuote tx (cursor s + 1)"
  then show "parseString (Suc n) tx stopAtDelimiter s = Ok (False, s\<lparr>cursor := cursor s + 1\<rparr>)"
    by (simp add: parseString_Suc parseString_body_def)
next
  show "jsonrepair 10 (codeBackslash # js ''foo'') = Ok (js ''\"foo\"'')"
    by (simp add: run cong: let_weak_cong)
qed

theorem parseString_leading_backslash_witness:
  "charCodeAt (codeBackslash # js ''foo'') 0 = Some codeBackslash \<and>
   \<not> atIndex isQuote (codeBackslash # js ''foo'') 1 \<and>
   parseString 1 (codeBackslash # js ''foo'') False \<lparr>cursor = 0, out = []\<rparr> =
     Ok (False, \<lparr>cursor = 1, out = []\<rparr>)"
proof -
  have h: "charCodeAt (codeBackslash # js ''foo'') (cursor \<lparr>cursor = 0, out = []\<rparr>) = Some codeBackslash \<and>
      \<not> atIndex isQuote (codeBackslash # js ''foo'') (cursor \<lparr>cursor = 0, out = []\<rparr> + 1)"
    by (simp add: charCodeAt_def atIndex_def js_def classifier_defs)
  from parseString_leading_backslash
  have "parseString (Suc 0) (codeBackslash # js ''foo'') False \<lparr>cursor = 0, out = []\<rparr> =
      Ok (False, \<lparr>cursor = 0, out = []\<rparr>\<lparr>cursor := cursor \<lparr>cursor = 0, out = []\<rparr> + 1\<rparr>)"
    using h by blast
  then show ?thesis
    using h by simp
qed

end
